theory Spec2Isabelle
  imports Main "HOL-Library.Multiset"
begin

section \<open>Python values and failures\<close>

text \<open>
  The module is Python 2 (it uses the \<^verbatim>\<open>print\<close> statement), so \<^verbatim>\<open>range\<close>,
  \<^verbatim>\<open>zip\<close> and \<^verbatim>\<open>map\<close> build lists at once. Integers are unbounded and are
  modelled by \<^typ>\<open>int\<close>. The only exception the modelled functions can raise is the
  one of an index outside a list.
\<close>

datatype py_error = IndexError

text \<open>Sequencing of a computation that may raise: the first failure is the result.\<close>

definition and_then :: "py_error + 'a \<Rightarrow> ('a \<Rightarrow> py_error + 'b) \<Rightarrow> py_error + 'b" where
  "and_then m f = (case m of Inl e \<Rightarrow> Inl e | Inr a \<Rightarrow> f a)"

text \<open>
  \<^verbatim>\<open>xs[i]\<close> on a list: an index below zero counts from the end, and an index outside
  the list raises.
\<close>

definition getitem :: "'a list \<Rightarrow> int \<Rightarrow> py_error + 'a" where
  "getitem xs i =
     (if 0 \<le> i \<and> i < int (length xs) then Inr (xs ! nat i)
      else if i < 0 \<and> - int (length xs) \<le> i then Inr (xs ! nat (int (length xs) + i))
      else Inl IndexError)"

text \<open>\<^verbatim>\<open>range(a, b)\<close>: the integers from \<open>a\<close> up to \<open>b - 1\<close>.\<close>

definition py_range :: "int \<Rightarrow> int \<Rightarrow> int list" where
  "py_range a b = [a..b - 1]"

text \<open>
  A comprehension evaluates its body for each element in order; the first failure ends it.
\<close>

fun collect :: "('a \<Rightarrow> py_error + 'b) \<Rightarrow> 'a list \<Rightarrow> py_error + 'b list" where
  "collect f [] = Inr []"
| "collect f (x # xs) =
     (case f x of Inl e \<Rightarrow> Inl e
      | Inr y \<Rightarrow> (case collect f xs of Inl e \<Rightarrow> Inl e | Inr ys \<Rightarrow> Inr (y # ys)))"

section \<open>The module's constants\<close>

definition ENCODING_BIAS :: int where
  "ENCODING_BIAS = 5"

definition LANDSCAPE :: "int list list" where
  "LANDSCAPE =
    [[4, 3, 2, 2, 3, 2, 3, 4, 4, 5],
     [3, 2, 1, 2, 2, 2, 2, 3, 4, 6],
     [3, 2, 0, 1, 2, 2, 3, 3, 5, 7],
     [3, 2, 1, 1, 2, 2, 3, 5, 7, 8],
     [3, 2, 1, 2, 3, 4, 4, 6, 7, 7],
     [2, 2, 3, 4, 4, 5, 6, 7, 6, 5],
     [2, 3, 3, 4, 5, 7, 7, 6, 5, 4],
     [4, 5, 5, 6, 6, 9, 8, 7, 5, 4],
     [5, 6, 6, 7, 8, 8, 7, 7, 6, 5],
     [7, 7, 8, 9, 9, 9, 8, 8, 6, 5]]"

section \<open>Decoding one axis\<close>

text \<open>
  \<^verbatim>\<open>_parse_coord(sample, variables)\<close>. A sample is the list of values the solver
  returned, one per logical variable. The loop runs over \<^verbatim>\<open>enumerate(variables)\<close>
  with the running coordinate; \<^verbatim>\<open>return None\<close> inside the loop is \<open>Inr None\<close>.
  The test \<^verbatim>\<open>v != 0 and sample[v_index - 1] == 0\<close> reads the sample only when
  \<open>v \<noteq> 0\<close>.
\<close>

fun parse_loop :: "int list \<Rightarrow> nat \<Rightarrow> (nat \<times> int) list \<Rightarrow> py_error + nat option" where
  "parse_loop sample coord [] = Inr (Some coord)"
| "parse_loop sample coord ((v, v_index) # rest) =
     (case getitem sample v_index of
        Inl e \<Rightarrow> Inl e
      | Inr b \<Rightarrow>
          if b = 1 then
            (if v \<noteq> 0 then
               (case getitem sample (v_index - 1) of
                  Inl e \<Rightarrow> Inl e
                | Inr p \<Rightarrow> if p = 0 then Inr None else parse_loop sample (v + 1) rest)
             else parse_loop sample (v + 1) rest)
          else parse_loop sample coord rest)"

definition parse_coord :: "int list \<Rightarrow> int list \<Rightarrow> py_error + nat option" where
  "parse_coord sample variables = parse_loop sample 0 (enumerate 0 variables)"

section \<open>Finite differences of the landscape\<close>

text \<open>
  \<^verbatim>\<open>_x_shift\<close>, \<^verbatim>\<open>_y_shift\<close> and \<^verbatim>\<open>_angle_shift\<close> read the module's global
  \<^verbatim>\<open>LANDSCAPE\<close>. The grid is passed as the argument \<open>L\<close>, so that the functions can
  be studied on any grid; the program runs them on the constant \<^const>\<open>LANDSCAPE\<close>.
  \<open>item2 L i j\<close> is \<^verbatim>\<open>L[i][j]\<close>.
\<close>

definition item2 :: "int list list \<Rightarrow> int \<Rightarrow> int \<Rightarrow> py_error + int" where
  "item2 L i j = and_then (getitem L i) (\<lambda>row. getitem row j)"

definition x_shift :: "int list list \<Rightarrow> int \<Rightarrow> py_error + int" where
  "x_shift L x =
     and_then (item2 L (x + 1) 0) (\<lambda>a.
     and_then (item2 L x 0) (\<lambda>b. Inr (a - b)))"

definition y_shift :: "int list list \<Rightarrow> int \<Rightarrow> py_error + int" where
  "y_shift L y =
     and_then (item2 L 0 (y + 1)) (\<lambda>a.
     and_then (item2 L 0 y) (\<lambda>b. Inr (a - b)))"

definition angle_shift :: "int list list \<Rightarrow> int \<Rightarrow> int \<Rightarrow> py_error + int" where
  "angle_shift L x y =
     and_then (item2 L (x + 1) (y + 1)) (\<lambda>a.
     and_then (item2 L x (y + 1)) (\<lambda>b.
     and_then (item2 L (x + 1) y) (\<lambda>c.
     and_then (item2 L x y) (\<lambda>d. Inr (a - b - c + d)))))"

section \<open>Building the QUBO\<close>

text \<open>
  The QUBO is a Python dict from pairs of variable indices to coefficients. A dict
  comprehension stores its items one after the other, so a later item with the same key
  replaces an earlier one; \<^verbatim>\<open>Q.update(D)\<close> is \<open>Q ++ D\<close>.
\<close>

type_synonym qubo = "int \<times> int \<rightharpoonup> int"

type_synonym items = "((int \<times> int) \<times> int) list"

definition dict_of :: "('k \<times> 'v) list \<Rightarrow> ('k \<rightharpoonup> 'v)" where
  "dict_of kvs = fold (\<lambda>(k, v) m. m(k \<mapsto> v)) kvs Map.empty"

text \<open>The items of the five comprehensions of \<^verbatim>\<open>_get_qubo\<close>, in the order written.\<close>

definition x_diag_items :: "int list list \<Rightarrow> int list \<Rightarrow> int \<Rightarrow> py_error + items" where
  "x_diag_items L x_vars num_vars =
     collect (\<lambda>x. and_then (getitem x_vars x) (\<lambda>k.
                   and_then (x_shift L x) (\<lambda>s. Inr ((k, k), ENCODING_BIAS + s))))
             (py_range 1 num_vars)"

definition y_diag_items :: "int list list \<Rightarrow> int list \<Rightarrow> int \<Rightarrow> py_error + items" where
  "y_diag_items L y_vars num_vars =
     collect (\<lambda>y. and_then (getitem y_vars y) (\<lambda>k.
                   and_then (y_shift L y) (\<lambda>s. Inr ((k, k), ENCODING_BIAS + s))))
             (py_range 1 num_vars)"

definition cross_items ::
  "int list list \<Rightarrow> int list \<Rightarrow> int list \<Rightarrow> int \<Rightarrow> py_error + items" where
  "cross_items L x_vars y_vars num_vars =
     collect (\<lambda>(x, y). and_then (getitem x_vars x) (\<lambda>k.
                        and_then (getitem y_vars y) (\<lambda>l.
                        and_then (angle_shift L x y) (\<lambda>s. Inr ((k, l), s)))))
             (List.product (py_range 0 num_vars) (py_range 0 num_vars))"

definition adjacent_items :: "int list \<Rightarrow> int \<Rightarrow> py_error + items" where
  "adjacent_items vars num_vars =
     collect (\<lambda>x. and_then (getitem vars x) (\<lambda>k.
                   and_then (getitem vars (x - 1)) (\<lambda>l. Inr ((k, l), - ENCODING_BIAS))))
             (py_range 1 num_vars)"

text \<open>
  \<^verbatim>\<open>_get_qubo()\<close>, statement by statement. In \<^verbatim>\<open>Q[x_vars[0], x_vars[0]] = _x_shift(0)\<close>
  the right-hand side is evaluated before the subscripts.
\<close>

definition get_qubo :: "int list list \<Rightarrow> py_error + qubo" where
  "get_qubo L =
     (let num_vars = int (length L) - 1;
          x_vars = py_range 0 num_vars;
          y_vars = py_range num_vars (2 * num_vars)
      in and_then (x_diag_items L x_vars num_vars) (\<lambda>xd.
         and_then (x_shift L 0) (\<lambda>x0.
         and_then (getitem x_vars 0) (\<lambda>kx.
         and_then (y_diag_items L y_vars num_vars) (\<lambda>yd.
         and_then (y_shift L 0) (\<lambda>y0.
         and_then (getitem y_vars 0) (\<lambda>ky.
         and_then (cross_items L x_vars y_vars num_vars) (\<lambda>cr.
         and_then (adjacent_items x_vars num_vars) (\<lambda>xa.
         and_then (adjacent_items y_vars num_vars) (\<lambda>ya.
           Inr (((((dict_of xd)((kx, kx) \<mapsto> x0) ++ dict_of yd)((ky, ky) \<mapsto> y0)
                 ++ dict_of cr) ++ dict_of xa) ++ dict_of ya)))))))))))"

section \<open>Aggregating the samples\<close>

text \<open>
  The result table is a \<^verbatim>\<open>defaultdict(int)\<close>: reading a key that was never stored
  gives 0. \<^verbatim>\<open>_interpret_sample\<close> is the inner function; the table it updates and the
  two variable lists it closes over are arguments here, and the updated table is its
  result. \<^verbatim>\<open>map(_interpret_sample, samples)\<close> calls it on every sample in order
  (Python 2 builds the list at once), and an exception ends the whole call.
\<close>

type_synonym table = "nat \<times> nat \<rightharpoonup> int"

definition lookup :: "table \<Rightarrow> nat \<times> nat \<Rightarrow> int" where
  "lookup t k = (case t k of None \<Rightarrow> 0 | Some c \<Rightarrow> c)"

definition interpret_sample ::
  "int list \<Rightarrow> int list \<Rightarrow> table \<Rightarrow> int list \<times> int \<Rightarrow> py_error + table" where
  "interpret_sample x_vars y_vars interpreted_samples sample =
     (case sample of (s, num) \<Rightarrow>
        and_then (parse_coord s x_vars) (\<lambda>x.
          case x of None \<Rightarrow> Inr interpreted_samples
          | Some x \<Rightarrow>
              and_then (parse_coord s y_vars) (\<lambda>y.
                case y of None \<Rightarrow> Inr interpreted_samples
                | Some y \<Rightarrow>
                    Inr (interpreted_samples((x, y) \<mapsto> lookup interpreted_samples (x, y) + num)))))"

fun interpret_all ::
  "int list \<Rightarrow> int list \<Rightarrow> table \<Rightarrow> (int list \<times> int) list \<Rightarrow> py_error + table" where
  "interpret_all x_vars y_vars t [] = Inr t"
| "interpret_all x_vars y_vars t (sample # samples) =
     (case interpret_sample x_vars y_vars t sample of
        Inl e \<Rightarrow> Inl e
      | Inr t' \<Rightarrow> interpret_all x_vars y_vars t' samples)"

definition interpret_samples ::
  "int list list \<Rightarrow> (int list \<times> int) list \<Rightarrow> py_error + table" where
  "interpret_samples L samples =
     (let num_vars = int (length L) - 1;
          x_vars = py_range 0 num_vars;
          y_vars = py_range num_vars (2 * num_vars)
      in interpret_all x_vars y_vars Map.empty samples)"

section \<open>Notions of the specification\<close>

text \<open>
  The unary encoding of a coordinate \<open>c\<close> on an axis of \<open>m\<close> bits, and the sample that
  encodes a pair of coordinates: the x block followed by the y block.
\<close>

definition unary :: "nat \<Rightarrow> nat \<Rightarrow> int list" where
  "unary m c = replicate c 1 @ replicate (m - c) 0"

definition encode :: "nat \<Rightarrow> nat \<Rightarrow> nat \<Rightarrow> int list" where
  "encode m x y = unary m x @ unary m y"

text \<open>
  The energy of a sample under a QUBO: the sum of the coefficients whose two variables
  are both 1 in the sample.
\<close>

definition is_set :: "int list \<Rightarrow> int \<Rightarrow> bool" where
  "is_set s i \<longleftrightarrow> getitem s i = Inr 1"

definition energy :: "qubo \<Rightarrow> int list \<Rightarrow> int" where
  "energy Q s = (\<Sum>k \<in> {k \<in> dom Q. is_set s (fst k) \<and> is_set s (snd k)}. the (Q k))"

text \<open>The grids of the data model: \<open>n\<close> rows of \<open>n\<close> altitudes each, with \<open>n \<ge> 2\<close>.\<close>

definition square :: "int list list \<Rightarrow> bool" where
  "square L \<longleftrightarrow> 2 \<le> length L \<and> list_all (\<lambda>row. length row = length L) L"

section \<open>Auxiliary notions for the proofs\<close>

text \<open>
  The rest of \<^verbatim>\<open>enumerate(variables)\<close> from position \<open>v\<close> on, for the contiguous block
  of \<open>m\<close> variables that starts at index \<open>a\<close>.
\<close>

definition block :: "nat \<Rightarrow> nat \<Rightarrow> nat \<Rightarrow> (nat \<times> int) list" where
  "block a v m = map (\<lambda>i. (i, int a + int i)) [v..<m]"

text \<open>
  What \<^verbatim>\<open>_interpret_sample\<close> computes before it touches the table: the pair of
  coordinates of a sample, \<open>None\<close> when either axis is invalid (the y axis is not
  decoded when the x axis is invalid).
\<close>

definition decode :: "int list \<Rightarrow> int list \<Rightarrow> int list \<Rightarrow> py_error + (nat \<times> nat) option" where
  "decode x_vars y_vars s =
     (case parse_coord s x_vars of
        Inl e \<Rightarrow> Inl e
      | Inr None \<Rightarrow> Inr None
      | Inr (Some x) \<Rightarrow>
          (case parse_coord s y_vars of
             Inl e \<Rightarrow> Inl e
           | Inr None \<Rightarrow> Inr None
           | Inr (Some y) \<Rightarrow> Inr (Some (x, y))))"

text \<open>
  The occurrence counts of the samples that decode to the coordinates \<open>k\<close>, in order.
\<close>

definition credit ::
  "int list \<Rightarrow> int list \<Rightarrow> (int list \<times> int) list \<Rightarrow> nat \<times> nat \<Rightarrow> int list" where
  "credit x_vars y_vars samples k =
     map snd (filter (\<lambda>p. decode x_vars y_vars (fst p) = Inr (Some k)) samples)"

text \<open>
  The locals \<^verbatim>\<open>x_vars\<close> and \<^verbatim>\<open>y_vars\<close> of \<^verbatim>\<open>_get_qubo\<close> and \<^verbatim>\<open>_interpret_samples\<close>
  for a grid \<open>L\<close>.
\<close>

definition x_vars_of :: "int list list \<Rightarrow> int list" where
  "x_vars_of L = py_range 0 (int (length L) - 1)"

definition y_vars_of :: "int list list \<Rightarrow> int list" where
  "y_vars_of L = py_range (int (length L) - 1) (2 * (int (length L) - 1))"

text \<open>Two samples of the program's size that are valid on one axis only.\<close>

definition bad_y :: "int list" where
  "bad_y = unary 9 2 @ [1, 0, 1, 0, 0, 0, 0, 0, 0]"

definition bad_x :: "int list" where
  "bad_x = [0, 1, 0, 0, 0, 0, 0, 0, 0] @ unary 9 3"

text \<open>The altitude \<open>f(i, j)\<close> of a grid and its finite differences, on indices in range.\<close>

definition alt :: "int list list \<Rightarrow> nat \<Rightarrow> nat \<Rightarrow> int" where
  "alt L i j = L ! i ! j"

definition dx :: "int list list \<Rightarrow> nat \<Rightarrow> int" where
  "dx L i = alt L (i + 1) 0 - alt L i 0"

definition dy :: "int list list \<Rightarrow> nat \<Rightarrow> int" where
  "dy L j = alt L 0 (j + 1) - alt L 0 j"

definition ang :: "int list list \<Rightarrow> nat \<Rightarrow> nat \<Rightarrow> int" where
  "ang L i j = alt L (i + 1) (j + 1) - alt L i (j + 1) - alt L (i + 1) j + alt L i j"

text \<open>
  The grids on which \<^verbatim>\<open>_get_qubo\<close> reads inside the lists only: at least two rows, and
  no row shorter than the number of rows.
\<close>

definition wide_enough :: "int list list \<Rightarrow> bool" where
  "wide_enough L \<longleftrightarrow> 2 \<le> length L \<and> list_all (\<lambda>row. length L \<le> length row) L"

text \<open>
  The items the passes of \<^verbatim>\<open>_get_qubo\<close> store on a grid with \<open>m + 1\<close> rows, pass by
  pass, and all of them in the order in which they are stored.
\<close>

definition x_diag :: "int list list \<Rightarrow> nat \<Rightarrow> items" where
  "x_diag L m = map (\<lambda>i. ((int i, int i), ENCODING_BIAS + dx L i)) [1..<m]"

definition y_diag :: "int list list \<Rightarrow> nat \<Rightarrow> items" where
  "y_diag L m = map (\<lambda>j. ((int m + int j, int m + int j), ENCODING_BIAS + dy L j)) [1..<m]"

definition cross :: "int list list \<Rightarrow> nat \<Rightarrow> items" where
  "cross L m =
     map (\<lambda>(i, j). ((int i, int m + int j), ang L i j)) (List.product [0..<m] [0..<m])"

definition adjacent :: "nat \<Rightarrow> nat \<Rightarrow> items" where
  "adjacent a m = map (\<lambda>i. ((int a + int i, int a + int (i - 1)), - ENCODING_BIAS)) [1..<m]"

definition qubo_items :: "int list list \<Rightarrow> items" where
  "qubo_items L =
     (let m = length L - 1
      in x_diag L m @ [((0, 0), dx L 0)] @ y_diag L m @ [((int m, int m), dy L 0)]
         @ cross L m @ adjacent 0 m @ adjacent m m)"

text \<open>The contribution of one item to the energy of a sample.\<close>

definition contribution :: "int list \<Rightarrow> (int \<times> int) \<times> int \<Rightarrow> int" where
  "contribution s item =
     (case item of ((i, j), c) \<Rightarrow> if is_set s i \<and> is_set s j then c else 0)"

text \<open>
  The energy a sample has under the shifts alone, without the bias terms: the values
  of \<^verbatim>\<open>_x_shift\<close>, \<^verbatim>\<open>_y_shift\<close> and \<^verbatim>\<open>_angle_shift\<close> summed over the bits, and
  pairs of an x bit and a y bit, that are set. \<open>m = n - 1\<close> is the number of bits of
  an axis.
\<close>

definition telescoped :: "int list list \<Rightarrow> int list \<Rightarrow> int" where
  "telescoped L s =
     (let m = length L - 1
      in sum_list (map (\<lambda>i. if is_set s (int i) then dx L i else 0) [0..<m])
       + sum_list (map (\<lambda>j. if is_set s (int m + int j) then dy L j else 0) [0..<m])
       + sum_list (map (\<lambda>(i, j). if is_set s (int i) \<and> is_set s (int m + int j)
                                    then ang L i j else 0)
                       (List.product [0..<m] [0..<m])))"

text \<open>
  The number of positions \<open>i \<ge> 1\<close> of the axis block starting at index \<open>a\<close> whose bit
  is set while the bit before it is not.
\<close>

definition violations :: "nat \<Rightarrow> nat \<Rightarrow> int list \<Rightarrow> nat" where
  "violations a m s =
     length (filter (\<lambda>i. is_set s (int a + int i) \<and> \<not> is_set s (int a + int (i - 1)))
               [1..<m])"

text \<open>
  A sample of the program's size that is invalid on the y axis: the x bits are all 0
  and the y bits are 110010000.
\<close>

definition gap_sample :: "int list" where
  "gap_sample = replicate 9 0 @ [1, 1, 0, 0, 1, 0, 0, 0, 0]"

section \<open>Properties of the decoder\<close>


lemma getitem_in_range:
  "0 \<le> i \<Longrightarrow> i < int (length xs) \<Longrightarrow> getitem xs i = Inr (xs ! nat i)"
  by (simp add: getitem_def)

lemma getitem_nat: "k < length xs \<Longrightarrow> getitem xs (int k) = Inr (xs ! k)"
  by (simp add: getitem_def)

lemma py_range_conv: "py_range (int a) (int a + int m) = map (\<lambda>i. int a + int i) [0..<m]"
proof (induction m)
  case 0
  then show ?case by (simp add: py_range_def)
next
  case (Suc m)
  have "[int a..int a + int (Suc m) - 1] = [int a..int a + int m - 1] @ [int a + int m]"
    using upto_rec2 [of "int a" "int a + int m"] by simp
  with Suc show ?case by (simp add: py_range_def)
qed

lemma enumerate_block:
  "enumerate 0 (map f [0..<m]) = map (\<lambda>i. (i, f i)) [0..<m]"
  by (simp add: enumerate_eq_zip map_nth zip_map2 zip_same_conv_map)

lemma parse_coord_block:
  "parse_coord s (py_range (int a) (int a + int m)) = parse_loop s 0 (block a 0 m)"
  by (simp add: parse_coord_def py_range_conv enumerate_block block_def)

lemma block_step: "v < m \<Longrightarrow> block a v m = (v, int a + int v) # block a (Suc v) m"
  by (simp add: block_def upt_rec)

lemma block_done: "m \<le> v \<Longrightarrow> block a v m = []"
  by (simp add: block_def)


lemma parse_loop_step:
  assumes "v < m" "a + m \<le> length s"
  shows "parse_loop s c (block a v m) =
           (if s ! (a + v) = 1
            then (if v \<noteq> 0 \<and> s ! (a + v - 1) = 0 then Inr None
                  else parse_loop s (v + 1) (block a (Suc v) m))
            else parse_loop s c (block a (Suc v) m))"
proof -
  have r1: "getitem s (int a + int v) = Inr (s ! (a + v))"
    using assms getitem_nat [of "a + v" s] by simp
  have r2: "getitem s (int a + int v - 1) = Inr (s ! (a + v - 1))" if "v \<noteq> 0"
  proof -
    have e: "int a + int v - 1 = int (a + v - 1)" using that by linarith
    have "getitem s (int (a + v - 1)) = Inr (s ! (a + v - 1))"
      by (rule getitem_nat) (use assms in linarith)
    then show ?thesis by (simp only: e)
  qed
  show ?thesis
    using r1 r2 by (simp add: block_step [OF assms(1)])
qed

lemma parse_loop_violation:
  assumes "a + m \<le> length s"
    and "v \<le> i" "i < m" "i \<noteq> 0" "s ! (a + i) = 1" "s ! (a + i - 1) = 0"
  shows "parse_loop s c (block a v m) = Inr None"
  using assms(2)
proof (induction "i - v" arbitrary: v c)
  case 0
  then have "v = i" by simp
  then show ?case using assms by (simp add: parse_loop_step)
next
  case (Suc d)
  then have lt: "v < i" and vm: "v < m" using assms(3) by simp_all
  have ih: "parse_loop s c' (block a (Suc v) m) = Inr None" for c'
    using Suc.hyps(1) [of "Suc v" c'] Suc.hyps(2) lt by simp
  show ?case
    by (simp add: parse_loop_step [OF vm assms(1)] ih)
qed

lemma parse_loop_outcome:
  assumes "a + m \<le> length s"
  shows "parse_loop s c (block a v m) = Inr None \<or>
         (\<exists>c'. (c' = c \<or> (v < c' \<and> c' \<le> m)) \<and> parse_loop s c (block a v m) = Inr (Some c'))"
proof (induction "m - v" arbitrary: v c)
  case 0
  then show ?case by (simp add: block_done)
next
  case (Suc d)
  then have vm: "v < m" by simp
  have ih: "parse_loop s c' (block a (Suc v) m) = Inr None \<or>
         (\<exists>c''. (c'' = c' \<or> (Suc v < c'' \<and> c'' \<le> m)) \<and>
             parse_loop s c' (block a (Suc v) m) = Inr (Some c''))" for c'
    using Suc.hyps(1) [of "Suc v" c'] Suc.hyps(2) by simp
  show ?case
    using ih [of c] ih [of "Suc v"] vm
    by (auto simp add: parse_loop_step [OF vm assms])
qed

lemma parse_loop_unary:
  assumes "a + m \<le> length s" and "k \<le> m"
    and "\<And>i. i < m \<Longrightarrow> s ! (a + i) = (if i < k then 1 else 0)"
  shows "parse_loop s c (block a v m) = Inr (Some (if v < k then k else c))"
proof (induction "m - v" arbitrary: v c)
  case 0
  then have "\<not> v < k" using assms(2) by simp
  with 0 show ?case by (simp add: block_done)
next
  case (Suc d)
  then have vm: "v < m" by simp
  have ih: "parse_loop s c' (block a (Suc v) m) = Inr (Some (if Suc v < k then k else c'))" for c'
    using Suc.hyps(1) [of "Suc v" c'] Suc.hyps(2) by simp
  have prev: "s ! (a + v - 1) = 1" if "v \<noteq> 0" "v < k"
  proof -
    have "a + v - 1 = a + (v - 1)" using that by simp
    then show ?thesis using assms(3) [of "v - 1"] that vm by simp
  qed
  show ?case
    using prev assms(3) [OF vm]
    by (auto simp add: parse_loop_step [OF vm assms(1)] ih)
qed

lemma parse_loop_agree:
  assumes "\<And>v i. (v, i) \<in> set vs \<Longrightarrow> getitem s1 i = getitem s2 i"
    and "\<And>v i. (v, i) \<in> set vs \<Longrightarrow> v \<noteq> 0 \<Longrightarrow> getitem s1 (i - 1) = getitem s2 (i - 1)"
  shows "parse_loop s1 c vs = parse_loop s2 c vs"
  using assms
proof (induction vs arbitrary: c)
  case Nil
  then show ?case by simp
next
  case (Cons p vs)
  obtain v i where p: "p = (v, i)" by (cases p)
  have ih: "parse_loop s1 c' vs = parse_loop s2 c' vs" for c'
    using Cons.IH [of c'] Cons.prems by auto
  have h1: "getitem s1 i = getitem s2 i" using Cons.prems(1) [of v i] p by simp
  have h2: "v \<noteq> 0 \<Longrightarrow> getitem s1 (i - 1) = getitem s2 (i - 1)"
    using Cons.prems(2) [of v i] p by simp
  show ?case
    using h1 h2 by (simp add: p ih split: sum.splits)
qed

section \<open>Claims about the decoder\<close>

text \<open>
  Claim C3 (decoder round trip). An axis has \<open>m = n - 1\<close> bits. For every coordinate
  \<open>c \<le> m\<close>, a sample whose axis block holds the unary encoding of \<open>c\<close> (ones at the
  positions below \<open>c\<close>, zeros from \<open>c\<close> on) decodes to exactly \<open>c\<close> on that axis,
  whatever comes before (\<open>pre\<close>) and after (\<open>post\<close>) the block; the all-zero block
  decodes to 0. With \<open>pre = []\<close> the block is the x axis, with \<open>pre\<close> of length \<open>m\<close>
  and \<open>post = []\<close> it is the y axis.
\<close>

theorem parse_coord_roundtrip:
  assumes "c \<le> m"
  shows "parse_coord (pre @ unary m c @ post)
           (py_range (int (length pre)) (int (length pre) + int m)) = Inr (Some c)
       \<and> parse_coord (pre @ replicate m 0 @ post)
           (py_range (int (length pre)) (int (length pre) + int m)) = Inr (Some 0)"
proof -
  have len: "length (unary m k) = m" if "k \<le> m" for k
    using that by (simp add: unary_def)
  have bits: "(pre @ unary m k @ post) ! (length pre + i) = (if i < k then 1 else 0)"
    if "k \<le> m" "i < m" for k i
  proof -
    have "(unary m k @ post) ! i = unary m k ! i"
      using that len [of k] by (simp add: nth_append)
    moreover have "unary m k ! i = (if i < k then 1 else 0)"
      using that by (auto simp add: unary_def nth_append)
    ultimately show ?thesis by (simp add: nth_append)
  qed
  have dec: "parse_coord (pre @ unary m k @ post)
           (py_range (int (length pre)) (int (length pre) + int m)) = Inr (Some k)"
    if k: "k \<le> m" for k
  proof -
    have "length pre + m \<le> length (pre @ unary m k @ post)"
      using len [OF k] by simp
    from parse_loop_unary [OF this k bits [OF k], of 0 0]
    show ?thesis
      using k by (cases "k = 0") (simp_all add: parse_coord_block)
  qed
  have z: "unary m 0 = replicate m 0" by (simp add: unary_def)
  show ?thesis
    using dec [OF assms] dec [of 0] by (simp add: z)
qed

theorem parse_coord_roundtrip_witness:
  "(3::nat) \<le> 9
   \<and> parse_coord (encode 9 2 3) (py_range 9 18) = Inr (Some 3)
   \<and> parse_coord (encode 9 3 7) (py_range 0 9) = Inr (Some 3)
   \<and> parse_coord (replicate 18 0) (py_range 0 9) = Inr (Some 0)"
proof -
  have a: "(3::nat) \<le> 9" by simp
  have y: "parse_coord (encode 9 2 3) (py_range 9 18) = Inr (Some 3)"
    using parse_coord_roundtrip [OF a, of "unary 9 2" "[]"]
    by (simp add: encode_def unary_def)
  have x: "parse_coord (encode 9 3 7) (py_range 0 9) = Inr (Some 3)"
    using parse_coord_roundtrip [OF a, of "[]" "unary 9 7"]
    by (simp add: encode_def)
  have "replicate 18 (0::int) = replicate 9 0 @ replicate 9 0"
    by (simp add: replicate_add [symmetric])
  then have o: "parse_coord (replicate 18 0) (py_range 0 9) = Inr (Some 0)"
    using parse_coord_roundtrip [OF a, of "[]" "replicate 9 0"]
    by simp
  show ?thesis using a x y o by simp
qed

text \<open>
  Claim C4 (rejection, and the only outcomes). For a sample that covers the axis
  block of \<open>m\<close> variables starting at index \<open>a\<close>: if some position \<open>v > 0\<close> of the axis
  holds 1 while position \<open>v - 1\<close> holds 0, the decoder returns \<^verbatim>\<open>None\<close>; if the axis
  is a prefix of \<open>c\<close> ones followed by zeros, it returns the coordinate \<open>c\<close>; and in
  every case the result is \<^verbatim>\<open>None\<close> or a coordinate in \<open>{0, \<dots>, m}\<close>, never an
  exception.
\<close>

theorem parse_coord_outcomes:
  assumes "a + m \<le> length s"
  shows "((\<exists>v. 0 < v \<and> v < m \<and> s ! (a + v) = 1 \<and> s ! (a + v - 1) = 0) \<longrightarrow>
            parse_coord s (py_range (int a) (int a + int m)) = Inr None)
       \<and> (\<forall>c\<le>m. (\<forall>i<m. s ! (a + i) = (if i < c then 1 else 0)) \<longrightarrow>
            parse_coord s (py_range (int a) (int a + int m)) = Inr (Some c))
       \<and> (parse_coord s (py_range (int a) (int a + int m)) = Inr None
            \<or> (\<exists>c\<le>m. parse_coord s (py_range (int a) (int a + int m)) = Inr (Some c)))"
proof (intro conjI impI allI)
  assume "\<exists>v. 0 < v \<and> v < m \<and> s ! (a + v) = 1 \<and> s ! (a + v - 1) = 0"
  then obtain v where v: "0 < v" "v < m" "s ! (a + v) = 1" "s ! (a + v - 1) = 0" by blast
  show "parse_coord s (py_range (int a) (int a + int m)) = Inr None"
    unfolding parse_coord_block
    by (rule parse_loop_violation [OF assms _ v(2) _ v(3) v(4)]) (use v(1) in simp_all)
next
  fix c assume c: "c \<le> m" and b: "\<forall>i<m. s ! (a + i) = (if i < c then 1 else 0)"
  from parse_loop_unary [OF assms c, of 0 0] b
  show "parse_coord s (py_range (int a) (int a + int m)) = Inr (Some c)"
    by (cases "c = 0") (simp_all add: parse_coord_block)
next
  from parse_loop_outcome [OF assms, of 0 0]
  show "parse_coord s (py_range (int a) (int a + int m)) = Inr None
            \<or> (\<exists>c\<le>m. parse_coord s (py_range (int a) (int a + int m)) = Inr (Some c))"
    unfolding parse_coord_block by auto
qed

theorem parse_coord_outcomes_witness:
  "(9::nat) + 9 \<le> length (unary 9 2 @ [1, 0, 1, 0, 0, 0, 0, 0, 0])
   \<and> parse_coord (unary 9 2 @ [1, 0, 1, 0, 0, 0, 0, 0, 0]) (py_range 9 18) = Inr None
   \<and> parse_coord (unary 9 2 @ [1, 0, 1, 0, 0, 0, 0, 0, 0]) (py_range 0 9) = Inr (Some 2)"
proof -
  let ?s = "unary 9 2 @ [1, 0, 1, 0, 0, 0, 0, 0, 0 :: int]"
  have n: "length (unary 9 2) = 9" by (simp add: unary_def)
  have l: "(9::nat) + 9 \<le> length ?s" and l0: "(0::nat) + 9 \<le> length ?s"
    by (simp_all add: n)
  have "0 < (2::nat) \<and> (2::nat) < 9 \<and> ?s ! (9 + 2) = 1 \<and> ?s ! (9 + 2 - 1) = 0"
    by (simp add: nth_append n)
  then have "\<exists>v. 0 < v \<and> v < 9 \<and> ?s ! (9 + v) = 1 \<and> ?s ! (9 + v - 1) = 0"
    by (rule exI)
  with parse_coord_outcomes [OF l]
  have y: "parse_coord ?s (py_range 9 18) = Inr None" by simp
  have "\<forall>i<9. ?s ! (0 + i) = (if i < 2 then 1 else 0)"
    by (auto simp add: nth_append unary_def)
  moreover have "(2::nat) \<le> 9" by simp
  ultimately have x: "parse_coord ?s (py_range 0 9) = Inr (Some 2)"
    using parse_coord_outcomes [OF l0] by simp
  show ?thesis using l x y by simp
qed

text \<open>
  Claim C10 (an axis is decoded from its own bits). Two samples that agree on the
  \<open>m\<close> variables of the block starting at index \<open>a\<close> decode to the same result on that
  axis. Nothing is assumed about the other positions, the one just below the block
  included: the read of \<^verbatim>\<open>sample[v_index - 1]\<close> happens for \<open>v \<noteq> 0\<close> only and stays
  inside the block.
\<close>

theorem parse_coord_block_only:
  assumes "a + m \<le> length s1" and "a + m \<le> length s2"
    and "\<forall>i<m. s1 ! (a + i) = s2 ! (a + i)"
  shows "parse_coord s1 (py_range (int a) (int a + int m)) =
         parse_coord s2 (py_range (int a) (int a + int m))"
  unfolding parse_coord_block
proof (rule parse_loop_agree)
  fix v i assume "(v, i) \<in> set (block a 0 m)"
  then have i: "i = int (a + v)" and v: "v < m" by (auto simp add: block_def)
  have g: "getitem s1 (int (a + k)) = getitem s2 (int (a + k))" if "k < m" for k
  proof -
    have "getitem s1 (int (a + k)) = Inr (s1 ! (a + k))"
      by (rule getitem_nat) (use that assms(1) in linarith)
    moreover have "getitem s2 (int (a + k)) = Inr (s2 ! (a + k))"
      by (rule getitem_nat) (use that assms(2) in linarith)
    ultimately show ?thesis using assms(3) that by simp
  qed
  show "getitem s1 i = getitem s2 i"
    unfolding i by (rule g [OF v])
  assume "v \<noteq> 0"
  then have e: "i - 1 = int (a + (v - 1))" using i by linarith
  have "v - 1 < m" using v by simp
  then show "getitem s1 (i - 1) = getitem s2 (i - 1)"
    unfolding e by (rule g)
qed

theorem parse_coord_block_only_witness:
  "(9::nat) + 9 \<le> length (encode 9 2 4) \<and> 9 + 9 \<le> length (encode 9 7 4)
   \<and> parse_coord (encode 9 2 4) (py_range 9 18) = parse_coord (encode 9 7 4) (py_range 9 18)"
proof -
  have l1: "(9::nat) + 9 \<le> length (encode 9 2 4)" and l2: "(9::nat) + 9 \<le> length (encode 9 7 4)"
    by (simp_all add: encode_def unary_def)
  have "\<forall>i<9. encode 9 2 4 ! (9 + i) = encode 9 7 4 ! (9 + i)"
    by (simp add: encode_def unary_def nth_append)
  from parse_coord_block_only [OF l1 l2 this] l1 l2 show ?thesis by simp
qed

section \<open>Properties of the aggregator\<close>

lemma interpret_sample_decode:
  "interpret_sample xv yv t (s, num) =
     (case decode xv yv s of
        Inl e \<Rightarrow> Inl e
      | Inr None \<Rightarrow> Inr t
      | Inr (Some k) \<Rightarrow> Inr (t(k \<mapsto> lookup t k + num)))"
  by (simp add: interpret_sample_def decode_def and_then_def split: sum.splits option.splits)

lemma py_error_only: "(e :: py_error) = IndexError"
  by (cases e)

lemma interpret_all_closed:
  "interpret_all xv yv t samples =
     (if \<exists>p\<in>set samples. decode xv yv (fst p) = Inl IndexError then Inl IndexError
      else Inr (\<lambda>k. if credit xv yv samples k = [] then t k
                     else Some (lookup t k + sum_list (credit xv yv samples k))))"
proof (induction samples arbitrary: t)
  case Nil
  then show ?case by (simp add: credit_def)
next
  case (Cons p samples)
  obtain s num where p: "p = (s, num)" by (cases p)
  show ?case
  proof (cases "decode xv yv s")
    case (Inl e)
    then have "decode xv yv s = Inl IndexError" using py_error_only [of e] by simp
    then show ?thesis by (simp add: p interpret_sample_decode)
  next
    case (Inr d)
    show ?thesis
    proof (cases d)
      case None
      with Inr have c: "credit xv yv (p # samples) k = credit xv yv samples k" for k
        by (simp add: credit_def p)
      have step: "interpret_all xv yv t (p # samples) = interpret_all xv yv t samples"
        using Inr None by (simp add: p interpret_sample_decode)
      have err: "(\<exists>q\<in>set (p # samples). decode xv yv (fst q) = Inl IndexError) =
                 (\<exists>q\<in>set samples. decode xv yv (fst q) = Inl IndexError)"
        using Inr by (simp add: p)
      show ?thesis
        unfolding step Cons.IH [of t] err c ..
    next
      case (Some k0)
      let ?t = "t(k0 \<mapsto> lookup t k0 + num)"
      have c0: "credit xv yv (p # samples) k0 = num # credit xv yv samples k0"
        using Inr Some by (simp add: credit_def p)
      have c1: "credit xv yv (p # samples) k = credit xv yv samples k" if "k \<noteq> k0" for k
        using Inr Some that by (simp add: credit_def p)
      have step: "interpret_all xv yv t (p # samples) = interpret_all xv yv ?t samples"
        using Inr Some by (simp add: p interpret_sample_decode)
      have tab: "(\<lambda>k. if credit xv yv samples k = [] then ?t k
                     else Some (lookup ?t k + sum_list (credit xv yv samples k))) =
            (\<lambda>k. if credit xv yv (p # samples) k = [] then t k
                     else Some (lookup t k + sum_list (credit xv yv (p # samples) k)))"
      proof (rule ext)
        fix k
        show "(if credit xv yv samples k = [] then ?t k
                     else Some (lookup ?t k + sum_list (credit xv yv samples k))) =
            (if credit xv yv (p # samples) k = [] then t k
                     else Some (lookup t k + sum_list (credit xv yv (p # samples) k)))"
        proof (cases "k = k0")
          case True
          then show ?thesis by (simp add: c0 lookup_def)
        next
          case False
          then show ?thesis by (simp add: c1 lookup_def)
        qed
      qed
      have err: "(\<exists>q\<in>set (p # samples). decode xv yv (fst q) = Inl IndexError) =
                 (\<exists>q\<in>set samples. decode xv yv (fst q) = Inl IndexError)"
        using Inr by (simp add: p)
      show ?thesis
        unfolding step Cons.IH [of ?t] err tab ..
    qed
  qed
qed

lemma interpret_samples_vars:
  "interpret_samples L samples = interpret_all (x_vars_of L) (y_vars_of L) Map.empty samples"
  by (simp add: interpret_samples_def x_vars_of_def y_vars_of_def Let_def)

lemma parse_coord_no_error:
  assumes "a + m \<le> length s"
  shows "parse_coord s (py_range (int a) (int a + int m)) \<noteq> Inl e"
  using parse_loop_outcome [OF assms, of 0 0] unfolding parse_coord_block by auto

lemma vars_of_nonempty:
  assumes "L \<noteq> []"
  shows "x_vars_of L = py_range (int 0) (int 0 + int (length L - 1))"
    and "y_vars_of L = py_range (int (length L - 1)) (int (length L - 1) + int (length L - 1))"
proof -
  have "1 \<le> length L" using assms by (cases L) simp_all
  then have e: "int (length L) - 1 = int (length L - 1)" by linarith
  have z: "int 0 + k = k" "2 * k = k + k" for k :: int by simp_all
  show "x_vars_of L = py_range (int 0) (int 0 + int (length L - 1))"
    unfolding x_vars_of_def e z by simp
  show "y_vars_of L = py_range (int (length L - 1)) (int (length L - 1) + int (length L - 1))"
    unfolding y_vars_of_def e z ..
qed

lemma vars_of_empty: "x_vars_of [] = []" "y_vars_of [] = []"
  by (simp_all add: x_vars_of_def y_vars_of_def py_range_def)

lemma decode_no_error:
  assumes "2 * (length L - 1) \<le> length s"
  shows "decode (x_vars_of L) (y_vars_of L) s \<noteq> Inl e"
proof (cases "L = []")
  case True
  then show ?thesis by (simp add: decode_def vars_of_empty parse_coord_def)
next
  case False
  have x: "parse_coord s (x_vars_of L) \<noteq> Inl e'" for e'
    unfolding vars_of_nonempty(1) [OF False]
    by (rule parse_coord_no_error) (use assms in simp)
  have y: "parse_coord s (y_vars_of L) \<noteq> Inl e'" for e'
    unfolding vars_of_nonempty(2) [OF False]
    by (rule parse_coord_no_error) (use assms in simp)
  show ?thesis
    using x y by (simp add: decode_def split: sum.splits option.splits)
qed

lemma decode_Some_iff:
  "decode xv yv s = Inr (Some (x, y)) \<longleftrightarrow>
     parse_coord s xv = Inr (Some x) \<and> parse_coord s yv = Inr (Some y)"
  by (auto simp add: decode_def split: sum.splits option.splits)

lemma credit_mset:
  "mset samples = mset samples' \<Longrightarrow>
     mset (credit xv yv samples k) = mset (credit xv yv samples' k)"
proof -
  assume eq: "mset samples = mset samples'"
  have "mset (credit xv yv zs k) =
          image_mset snd (filter_mset (\<lambda>p. decode xv yv (fst p) = Inr (Some k)) (mset zs))" for zs
    by (simp add: credit_def)
  then show ?thesis by (simp only: eq)
qed

lemma interpret_all_append:
  "interpret_all xv yv t (xs @ ys) =
     (case interpret_all xv yv t xs of Inl e \<Rightarrow> Inl e | Inr t' \<Rightarrow> interpret_all xv yv t' ys)"
  by (induction xs arbitrary: t) (simp_all split: sum.splits)

lemma parse_coord_violation:
  assumes "a + m \<le> length s" "0 < v" "v < m" "s ! (a + v) = 1" "s ! (a + v - 1) = 0"
  shows "parse_coord s (py_range (int a) (int a + int m)) = Inr None"
  unfolding parse_coord_block
  by (rule parse_loop_violation [OF assms(1) _ assms(3) _ assms(4) assms(5)]) (use assms(2) in simp_all)

lemma parse_coord_prefix:
  assumes "a + m \<le> length s" "c \<le> m" "\<And>i. i < m \<Longrightarrow> s ! (a + i) = (if i < c then 1 else 0)"
  shows "parse_coord s (py_range (int a) (int a + int m)) = Inr (Some c)"
  using parse_loop_unary [OF assms(1) assms(2), of 0 0] assms(3)
  by (cases "c = 0") (simp_all add: parse_coord_block)

lemma LANDSCAPE_length: "length LANDSCAPE = 10"
  by (simp add: LANDSCAPE_def)

lemma LANDSCAPE_vars:
  "x_vars_of LANDSCAPE = py_range 0 9" "y_vars_of LANDSCAPE = py_range 9 18"
  by (simp_all add: x_vars_of_def y_vars_of_def LANDSCAPE_length)

lemma py_range_numerals:
  "py_range 0 9 = py_range (int 0) (int 0 + int 9)"
  "py_range 9 18 = py_range (int 9) (int 9 + int 9)"
  by simp_all

lemma parse_encode:
  assumes "x \<le> 9" "y \<le> 9"
  shows "parse_coord (encode 9 x y) (py_range 0 9) = Inr (Some x)"
    and "parse_coord (encode 9 x y) (py_range 9 18) = Inr (Some y)"
proof -
  have lx: "length (unary 9 x) = 9" and ly: "length (unary 9 y) = 9"
    using assms by (simp_all add: unary_def)
  show "parse_coord (encode 9 x y) (py_range 0 9) = Inr (Some x)"
    unfolding py_range_numerals
  proof (rule parse_coord_prefix)
    show "0 + 9 \<le> length (encode 9 x y)" by (simp add: encode_def lx ly)
    show "x \<le> 9" by fact
    fix i :: nat assume "i < 9"
    then have "encode 9 x y ! (0 + i) = unary 9 x ! i"
      by (simp add: encode_def nth_append lx)
    also have "\<dots> = (if i < x then 1 else 0)"
      using \<open>i < 9\<close> assms by (auto simp add: unary_def nth_append)
    finally show "encode 9 x y ! (0 + i) = (if i < x then 1 else 0)" .
  qed
  show "parse_coord (encode 9 x y) (py_range 9 18) = Inr (Some y)"
    unfolding py_range_numerals
  proof (rule parse_coord_prefix)
    show "9 + 9 \<le> length (encode 9 x y)" by (simp add: encode_def lx ly)
    show "y \<le> 9" by fact
    fix i :: nat assume "i < 9"
    then have "encode 9 x y ! (9 + i) = unary 9 y ! i"
      by (simp add: encode_def nth_append lx)
    also have "\<dots> = (if i < y then 1 else 0)"
      using \<open>i < 9\<close> assms by (auto simp add: unary_def nth_append)
    finally show "encode 9 x y ! (9 + i) = (if i < y then 1 else 0)" .
  qed
qed

lemma parse_bad_y:
  "parse_coord bad_y (py_range 0 9) = Inr (Some 2)"
  "parse_coord bad_y (py_range 9 18) = Inr None"
proof -
  have n: "length (unary 9 2) = 9" by (simp add: unary_def)
  show "parse_coord bad_y (py_range 0 9) = Inr (Some 2)"
    unfolding py_range_numerals
    by (rule parse_coord_prefix) (auto simp add: bad_y_def n nth_append unary_def)
  show "parse_coord bad_y (py_range 9 18) = Inr None"
    unfolding py_range_numerals
    by (rule parse_coord_violation [where v = 2]) (simp_all add: bad_y_def n nth_append)
qed

lemma parse_bad_x:
  "parse_coord bad_x (py_range 0 9) = Inr None"
  "parse_coord bad_x (py_range 9 18) = Inr (Some 3)"
proof -
  have n: "length (unary 9 3) = 9" by (simp add: unary_def)
  show "parse_coord bad_x (py_range 0 9) = Inr None"
    unfolding py_range_numerals
    by (rule parse_coord_violation [where v = 1]) (simp_all add: bad_x_def n nth_append)
  show "parse_coord bad_x (py_range 9 18) = Inr (Some 3)"
    unfolding py_range_numerals
    by (rule parse_coord_prefix) (auto simp add: bad_x_def n nth_append unary_def)
qed

lemma sample_lengths:
  "length bad_x = 18" "length bad_y = 18" "x \<le> 9 \<Longrightarrow> y \<le> 9 \<Longrightarrow> length (encode 9 x y) = 18"
  by (simp_all add: bad_x_def bad_y_def encode_def unary_def)

section \<open>Claims about the aggregator\<close>

text \<open>
  Claim C5 (mixed validity is discarded). A sample that decodes to a coordinate on one
  axis and to \<^verbatim>\<open>None\<close> on the other leaves the table exactly as it was: no entry
  receives its occurrence count. Hence the whole run gives the same table with or
  without that sample, wherever it stands in the sequence.
\<close>

theorem mixed_validity_discarded:
  assumes "(parse_coord s (x_vars_of L) = Inr (Some c) \<and> parse_coord s (y_vars_of L) = Inr None)
         \<or> (parse_coord s (x_vars_of L) = Inr None \<and> parse_coord s (y_vars_of L) = Inr (Some c))"
  shows "interpret_sample (x_vars_of L) (y_vars_of L) t (s, num) = Inr t
       \<and> interpret_samples L (before @ (s, num) # after) = interpret_samples L (before @ after)"
proof -
  have one: "interpret_sample (x_vars_of L) (y_vars_of L) t' (s, num) = Inr t'" for t'
    using assms by (auto simp add: interpret_sample_def and_then_def)
  have "interpret_all (x_vars_of L) (y_vars_of L) t' ((s, num) # after) =
        interpret_all (x_vars_of L) (y_vars_of L) t' after" for t'
    by (simp add: one)
  then have "interpret_all (x_vars_of L) (y_vars_of L) Map.empty (before @ (s, num) # after) =
        interpret_all (x_vars_of L) (y_vars_of L) Map.empty (before @ after)"
    by (simp only: interpret_all_append)
  then show ?thesis
    using one [of t] by (simp only: interpret_samples_vars simp_thms)
qed

theorem mixed_validity_discarded_witness:
  "interpret_sample (py_range 0 9) (py_range 9 18) [(1, 0) \<mapsto> 10] (bad_y, 5) = Inr [(1, 0) \<mapsto> 10]
   \<and> interpret_sample (py_range 0 9) (py_range 9 18) [(1, 0) \<mapsto> 10] (bad_x, 5) = Inr [(1, 0) \<mapsto> 10]
   \<and> interpret_samples LANDSCAPE ([(encode 9 1 0, 10)] @ (bad_y, 5) # []) =
       interpret_samples LANDSCAPE ([(encode 9 1 0, 10)] @ [])"
proof -
  have y: "(parse_coord bad_y (x_vars_of LANDSCAPE) = Inr (Some 2) \<and>
            parse_coord bad_y (y_vars_of LANDSCAPE) = Inr None)
         \<or> (parse_coord bad_y (x_vars_of LANDSCAPE) = Inr None \<and>
            parse_coord bad_y (y_vars_of LANDSCAPE) = Inr (Some 2))"
    by (simp add: LANDSCAPE_vars parse_bad_y)
  have x: "(parse_coord bad_x (x_vars_of LANDSCAPE) = Inr (Some 3) \<and>
            parse_coord bad_x (y_vars_of LANDSCAPE) = Inr None)
         \<or> (parse_coord bad_x (x_vars_of LANDSCAPE) = Inr None \<and>
            parse_coord bad_x (y_vars_of LANDSCAPE) = Inr (Some 3))"
    by (simp add: LANDSCAPE_vars parse_bad_x)
  show ?thesis
    using mixed_validity_discarded [OF y, of "[(1, 0) \<mapsto> 10]" 5 "[(encode 9 1 0, 10)]" "[]"]
      mixed_validity_discarded [OF x, of "[(1, 0) \<mapsto> 10]" 5 "[]" "[]"]
    by (simp only: LANDSCAPE_vars simp_thms)
qed

lemma interpret_samples_total:
  assumes "\<And>p. p \<in> set samples \<Longrightarrow> 2 * (length L - 1) \<le> length (fst p)"
  shows "interpret_samples L samples =
           Inr (\<lambda>k. if credit (x_vars_of L) (y_vars_of L) samples k = [] then None
                     else Some (sum_list (credit (x_vars_of L) (y_vars_of L) samples k)))"
proof -
  have "\<not> (\<exists>p\<in>set samples. decode (x_vars_of L) (y_vars_of L) (fst p) = Inl IndexError)"
    using assms decode_no_error by blast
  then show ?thesis
    by (simp only: interpret_samples_vars interpret_all_closed if_False)
       (simp add: lookup_def cong: if_cong)
qed

lemma credit_parse:
  "credit xv yv samples (x, y) =
     map snd (filter (\<lambda>p. parse_coord (fst p) xv = Inr (Some x)
                            \<and> parse_coord (fst p) yv = Inr (Some y)) samples)"
  by (simp add: credit_def decode_Some_iff)

lemma interpret_samples_lookup:
  assumes "interpret_samples L samples = Inr t"
  shows "lookup t k = sum_list (credit (x_vars_of L) (y_vars_of L) samples k)"
proof -
  have "t = (\<lambda>k. if credit (x_vars_of L) (y_vars_of L) samples k = [] then Map.empty k
                   else Some (lookup Map.empty k
                              + sum_list (credit (x_vars_of L) (y_vars_of L) samples k)))"
    using assms unfolding interpret_samples_vars interpret_all_closed
    by (simp split: if_splits)
  then have "t k = (if credit (x_vars_of L) (y_vars_of L) samples k = [] then None
                    else Some (sum_list (credit (x_vars_of L) (y_vars_of L) samples k)))"
    by (simp add: lookup_def cong: if_cong)
  then show ?thesis by (simp add: lookup_def)
qed

lemma interpret_all_merge:
  "interpret_all xv yv t ((s, a) # (s, b) # rest) = interpret_all xv yv t ((s, a + b) # rest)"
proof (cases "decode xv yv s")
  case (Inl e)
  then show ?thesis by (simp add: interpret_sample_decode)
next
  case (Inr d)
  show ?thesis
  proof (cases d)
    case None
    with Inr show ?thesis by (simp add: interpret_sample_decode)
  next
    case (Some k)
    have "lookup (t(k \<mapsto> lookup t k + a)) k + b = lookup t k + (a + b)"
      by (simp add: lookup_def)
    with Inr Some show ?thesis by (simp add: interpret_sample_decode add.assoc)
  qed
qed

text \<open>
  Claim C6 (order independence). Two sample sequences that are permutations of each
  other (equal as multisets) give the same result: the same table, or the same
  exception when some sample raises. Counts are summed, not overwritten: in a table
  that is returned, the value looked up at \<open>(x, y)\<close> is the sum of the counts of all the
  samples that decode to \<open>(x, y)\<close>, and two occurrences of a sample with counts \<open>a\<close> and
  \<open>b\<close> give what one occurrence with count \<open>a + b\<close> gives.
\<close>

theorem interpret_samples_order_independent:
  assumes "mset samples = mset samples'"
  shows "interpret_samples L samples = interpret_samples L samples'
       \<and> (\<forall>t x y. interpret_samples L samples = Inr t \<longrightarrow>
            lookup t (x, y) =
              sum_list (map snd (filter (\<lambda>p. parse_coord (fst p) (x_vars_of L) = Inr (Some x)
                                             \<and> parse_coord (fst p) (y_vars_of L) = Inr (Some y))
                                        samples)))
       \<and> (\<forall>s a b. interpret_samples L ((s, a) # (s, b) # samples) =
                    interpret_samples L ((s, a + b) # samples))"
proof -
  have s: "set samples = set samples'" using assms by (rule mset_eq_setD)
  have m: "mset (credit xv yv samples k) = mset (credit xv yv samples' k)" for xv yv k
    using assms by (rule credit_mset)
  have e: "(credit xv yv samples k = []) = (credit xv yv samples' k = [])" for xv yv k
    using m [of xv yv k] by (metis mset_zero_iff)
  have t: "sum_list (credit xv yv samples k) = sum_list (credit xv yv samples' k)" for xv yv k
    using m [of xv yv k] by (metis sum_mset_sum_list)
  have order: "interpret_samples L samples = interpret_samples L samples'"
    unfolding interpret_samples_vars interpret_all_closed s e t ..
  have summed: "lookup t (x, y) =
              sum_list (map snd (filter (\<lambda>p. parse_coord (fst p) (x_vars_of L) = Inr (Some x)
                                             \<and> parse_coord (fst p) (y_vars_of L) = Inr (Some y))
                                        samples))"
    if "interpret_samples L samples = Inr t" for t x y
    using interpret_samples_lookup [OF that, of "(x, y)"] by (simp only: credit_parse)
  have merged: "interpret_samples L ((s, a) # (s, b) # samples) =
                interpret_samples L ((s, a + b) # samples)" for s a b
    unfolding interpret_samples_vars by (rule interpret_all_merge)
  show ?thesis
    using order summed merged by blast
qed

theorem interpret_samples_order_independent_witness:
  "mset [(encode 9 1 0, 10 :: int), (bad_x, 5), (encode 9 1 0, 7)] =
     mset [(encode 9 1 0, 7), (encode 9 1 0, 10), (bad_x, 5)]
   \<and> interpret_samples LANDSCAPE [(encode 9 1 0, 10), (bad_x, 5), (encode 9 1 0, 7)] =
     interpret_samples LANDSCAPE [(encode 9 1 0, 7), (encode 9 1 0, 10), (bad_x, 5)]
   \<and> (\<exists>t. interpret_samples LANDSCAPE [(encode 9 1 0, 10), (bad_x, 5), (encode 9 1 0, 7)] = Inr t
          \<and> lookup t (1, 0) = 17 \<and> lookup t (0, 3) = 0)
   \<and> (\<exists>t. interpret_samples LANDSCAPE [(encode 9 1 0, 7), (encode 9 1 0, 10), (bad_x, 5)] = Inr t
          \<and> lookup t (1, 0) = 17)
   \<and> interpret_samples LANDSCAPE
        ((encode 9 1 0, 10) # (encode 9 1 0, 7) # [(encode 9 1 0, 10), (bad_x, 5), (encode 9 1 0, 7)]) =
      interpret_samples LANDSCAPE
        ((encode 9 1 0, 10 + 7) # [(encode 9 1 0, 10), (bad_x, 5), (encode 9 1 0, 7)])"
proof -
  let ?A = "[(encode 9 1 0, 10 :: int), (bad_x, 5), (encode 9 1 0, 7)]"
  let ?B = "[(encode 9 1 0, 7 :: int), (encode 9 1 0, 10), (bad_x, 5)]"
  have p: "mset ?A = mset ?B" by (simp add: add_mset_commute)
  have q: "mset ?B = mset ?A" by (simp add: add_mset_commute)
  have enc: "parse_coord (encode 9 (Suc 0) 0) (py_range 0 9) = Inr (Some (Suc 0))"
    "parse_coord (encode 9 (Suc 0) 0) (py_range 9 18) = Inr (Some 0)"
    using parse_encode [of "Suc 0" 0] by simp_all
  have "\<exists>t. interpret_samples LANDSCAPE ?A = Inr t"
    by (rule exI, rule interpret_samples_total) (auto simp add: LANDSCAPE_length sample_lengths)
  then obtain t where t: "interpret_samples LANDSCAPE ?A = Inr t" ..
  have "\<exists>u. interpret_samples LANDSCAPE ?B = Inr u"
    by (rule exI, rule interpret_samples_total) (auto simp add: LANDSCAPE_length sample_lengths)
  then obtain u where u: "interpret_samples LANDSCAPE ?B = Inr u" ..
  have sa: "lookup t (x, y) =
      sum_list (map snd (filter (\<lambda>p. parse_coord (fst p) (x_vars_of LANDSCAPE) = Inr (Some x)
                                     \<and> parse_coord (fst p) (y_vars_of LANDSCAPE) = Inr (Some y))
                                ?A))" for x y
    using interpret_samples_order_independent [OF p, of LANDSCAPE] t by blast
  have sb: "lookup u (x, y) =
      sum_list (map snd (filter (\<lambda>p. parse_coord (fst p) (x_vars_of LANDSCAPE) = Inr (Some x)
                                     \<and> parse_coord (fst p) (y_vars_of LANDSCAPE) = Inr (Some y))
                                ?B))" for x y
    using interpret_samples_order_independent [OF q, of LANDSCAPE] u by blast
  have a: "lookup t (1, 0) = 17" "lookup t (0, 3) = 0"
    unfolding sa by (simp_all add: LANDSCAPE_vars enc parse_bad_x)
  have b: "lookup u (1, 0) = 17"
    unfolding sb by (simp add: LANDSCAPE_vars enc parse_bad_x)
  show ?thesis
    using interpret_samples_order_independent [OF p, of LANDSCAPE] p t u a b by blast
qed

lemma credit_nonneg:
  assumes "\<And>p. p \<in> set samples \<Longrightarrow> 0 \<le> snd p"
  shows "0 \<le> sum_list (credit xv yv samples k)"
  by (rule sum_list_nonneg) (use assms in \<open>auto simp add: credit_def\<close>)

lemma credit_empty:
  assumes "\<And>p. p \<in> set samples \<Longrightarrow> decode xv yv (fst p) \<noteq> Inr (Some k)"
  shows "credit xv yv samples k = []"
  using assms by (simp add: credit_def filter_empty_conv)

text \<open>
  Claim C8 (the result table is well formed). When every sample covers the
  \<open>2 * (n - 1)\<close> variables and has a count that is not negative, \<^verbatim>\<open>_interpret_samples\<close>
  returns a table; the value looked up at any coordinates is the sum of the counts of
  the samples that decode to them, so it is not negative; it is 0 at coordinates to
  which no sample decodes; and when every sample is invalid on some axis every lookup
  gives 0.
\<close>

theorem result_table_well_formed:
  assumes "\<forall>p\<in>set samples. 2 * (length L - 1) \<le> length (fst p) \<and> 0 \<le> snd p"
  shows "\<exists>t. interpret_samples L samples = Inr t
     \<and> (\<forall>k. lookup t k = sum_list (credit (x_vars_of L) (y_vars_of L) samples k))
     \<and> (\<forall>x y. 0 \<le> lookup t (x, y))
     \<and> (\<forall>x y. (\<forall>p\<in>set samples. \<not> (parse_coord (fst p) (x_vars_of L) = Inr (Some x) \<and>
                                      parse_coord (fst p) (y_vars_of L) = Inr (Some y)))
              \<longrightarrow> lookup t (x, y) = 0)
     \<and> ((\<forall>p\<in>set samples. parse_coord (fst p) (x_vars_of L) = Inr None \<or>
                          parse_coord (fst p) (y_vars_of L) = Inr None)
          \<longrightarrow> (\<forall>k. lookup t k = 0))"
proof -
  let ?c = "credit (x_vars_of L) (y_vars_of L) samples"
  let ?t = "\<lambda>k. if ?c k = [] then None else Some (sum_list (?c k))"
  have r: "interpret_samples L samples = Inr ?t"
    by (rule interpret_samples_total) (use assms in blast)
  have tot: "lookup ?t k = sum_list (?c k)" for k
    by (simp add: lookup_def)
  have nn: "0 \<le> lookup ?t (x, y)" for x y
    unfolding tot by (rule credit_nonneg) (use assms in blast)
  have never: "lookup ?t (x, y) = 0"
    if "\<forall>p\<in>set samples. \<not> (parse_coord (fst p) (x_vars_of L) = Inr (Some x) \<and>
                                      parse_coord (fst p) (y_vars_of L) = Inr (Some y))" for x y
  proof -
    have "?c (x, y) = []"
      by (rule credit_empty) (use that in \<open>simp add: decode_Some_iff\<close>)
    then show ?thesis by (simp add: lookup_def)
  qed
  have allbad: "lookup ?t k = 0"
    if "\<forall>p\<in>set samples. parse_coord (fst p) (x_vars_of L) = Inr None \<or>
                          parse_coord (fst p) (y_vars_of L) = Inr None" for k
  proof -
    obtain x y where k: "k = (x, y)" by (cases k)
    show ?thesis unfolding k by (rule never) (use that in auto)
  qed
  show ?thesis
    using r tot nn never allbad by blast
qed

theorem result_table_well_formed_witness:
  "\<exists>t. interpret_samples LANDSCAPE [(encode 9 1 0, 10), (bad_x, 5)] = Inr t
     \<and> 0 \<le> lookup t (1, 0) \<and> lookup t (2, 3) = 0
     \<and> interpret_samples LANDSCAPE [(bad_y, 4), (bad_x, 5)] \<noteq> Inl IndexError"
proof -
  let ?S = "[(encode 9 1 0, 10 :: int), (bad_x, 5)]"
  have h: "\<forall>p\<in>set ?S. 2 * (length LANDSCAPE - 1) \<le> length (fst p) \<and> 0 \<le> snd p"
    by (simp add: LANDSCAPE_length sample_lengths)
  have n: "\<forall>p\<in>set ?S. \<not> (parse_coord (fst p) (x_vars_of LANDSCAPE) = Inr (Some 2) \<and>
                            parse_coord (fst p) (y_vars_of LANDSCAPE) = Inr (Some 3))"
    by (simp add: LANDSCAPE_vars parse_bad_x parse_encode)
  let ?B = "[(bad_y, 4 :: int), (bad_x, 5)]"
  have hb: "\<forall>p\<in>set ?B. 2 * (length LANDSCAPE - 1) \<le> length (fst p) \<and> 0 \<le> snd p"
    by (simp add: LANDSCAPE_length sample_lengths)
  from result_table_well_formed [OF hb]
  have b: "interpret_samples LANDSCAPE ?B \<noteq> Inl IndexError" by auto
  from result_table_well_formed [OF h] n b
  show ?thesis by blast
qed

section \<open>Properties of the QUBO construction\<close>

lemma square_wide_enough: "square L \<Longrightarrow> wide_enough L"
  by (simp add: square_def wide_enough_def list_all_iff)

lemma and_then_Inr [simp]: "and_then (Inr a) f = f a"
  by (simp add: and_then_def)

lemma and_then_Inl [simp]: "and_then (Inl e) f = Inl e"
  by (simp add: and_then_def)

lemma item2_in_range:
  assumes "wide_enough L" "i < length L" "j < length L"
  shows "item2 L (int i) (int j) = Inr (alt L i j)"
proof -
  have "length L \<le> length (L ! i)"
    using assms(1,2) by (simp add: wide_enough_def list_all_length)
  then have "j < length (L ! i)" using assms(3) by simp
  then show ?thesis
    using assms(2) by (simp add: item2_def getitem_nat alt_def)
qed

lemma x_shift_in_range:
  assumes "wide_enough L" "i + 1 < length L"
  shows "x_shift L (int i) = Inr (dx L i)"
proof -
  have a: "item2 L (int (i + 1)) (int 0) = Inr (alt L (i + 1) 0)"
    by (rule item2_in_range) (use assms in auto)
  have b: "item2 L (int i) (int 0) = Inr (alt L i 0)"
    by (rule item2_in_range) (use assms in auto)
  have e: "int i + 1 = int (i + 1)" "(0::int) = int 0" by simp_all
  show ?thesis
    unfolding x_shift_def e a b by (simp add: dx_def)
qed

lemma y_shift_in_range:
  assumes "wide_enough L" "j + 1 < length L"
  shows "y_shift L (int j) = Inr (dy L j)"
proof -
  have a: "item2 L (int 0) (int (j + 1)) = Inr (alt L 0 (j + 1))"
    by (rule item2_in_range) (use assms in auto)
  have b: "item2 L (int 0) (int j) = Inr (alt L 0 j)"
    by (rule item2_in_range) (use assms in auto)
  have e: "int j + 1 = int (j + 1)" "(0::int) = int 0" by simp_all
  show ?thesis
    unfolding y_shift_def e a b by (simp add: dy_def)
qed

lemma angle_shift_in_range:
  assumes "wide_enough L" "i + 1 < length L" "j + 1 < length L"
  shows "angle_shift L (int i) (int j) = Inr (ang L i j)"
proof -
  have a: "item2 L (int (i + 1)) (int (j + 1)) = Inr (alt L (i + 1) (j + 1))"
    by (rule item2_in_range) (use assms in simp_all)
  have b: "item2 L (int i) (int (j + 1)) = Inr (alt L i (j + 1))"
    by (rule item2_in_range) (use assms in simp_all)
  have c: "item2 L (int (i + 1)) (int j) = Inr (alt L (i + 1) j)"
    by (rule item2_in_range) (use assms in simp_all)
  have d: "item2 L (int i) (int j) = Inr (alt L i j)"
    by (rule item2_in_range) (use assms in simp_all)
  have e: "int i + 1 = int (i + 1)" "int j + 1 = int (j + 1)" by simp_all
  show ?thesis
    unfolding angle_shift_def e a b c d by (simp add: ang_def)
qed

lemma py_range_nat: "py_range (int a) (int b) = map int [a..<b]"
proof (cases "a \<le> b")
  case True
  then obtain m where b: "b = a + m" by (auto simp add: le_iff_add)
  have "[a..<a + m] = map (\<lambda>i. i + a) [0..<m]"
    by (simp add: map_add_upt add.commute)
  then have "map (\<lambda>i. int a + int i) [0..<m] = map int [a..<a + m]"
    by (simp add: add.commute)
  then show ?thesis
    using py_range_conv [of a m] by (simp add: b)
next
  case False
  then show ?thesis by (simp add: py_range_def)
qed

lemma collect_map:
  assumes "\<And>x. x \<in> set xs \<Longrightarrow> f (g x) = Inr (h x)"
  shows "collect f (map g xs) = Inr (map h xs)"
  using assms by (induction xs) simp_all

lemma getitem_map_upt:
  "i < m \<Longrightarrow> getitem (map f [0..<m]) (int i) = Inr (f i)"
  by (simp add: getitem_nat)

lemma fold_store:
  "fold (\<lambda>(k, v) m. m(k \<mapsto> v)) kvs m0 = m0 ++ map_of (rev kvs)"
proof (induction kvs arbitrary: m0)
  case Nil
  then show ?case by simp
next
  case (Cons p kvs)
  obtain k v where p: "p = (k, v)" by (cases p)
  have "fold (\<lambda>(k, v) m. m(k \<mapsto> v)) (p # kvs) m0 =
        fold (\<lambda>(k, v) m. m(k \<mapsto> v)) kvs (m0(k \<mapsto> v))"
    by (simp only: p fold_Cons comp_apply prod.case)
  also have "\<dots> = m0(k \<mapsto> v) ++ map_of (rev kvs)"
    by (rule Cons.IH)
  also have "\<dots> = m0 ++ map_of (rev (p # kvs))"
    by (simp add: p map_add_upd_left [symmetric] del: map_add_upd_left)
  finally show ?case .
qed

lemma dict_of_map_of: "dict_of kvs = map_of (rev kvs)"
  by (simp add: dict_of_def fold_store)

lemma dict_of_append: "dict_of (a @ b) = dict_of a ++ dict_of b"
  by (simp add: dict_of_map_of)

lemma dict_store: "(dict_of a)(k \<mapsto> v) = dict_of (a @ [(k, v)])"
  by (simp add: dict_of_map_of)

lemma product_map:
  "List.product (map f xs) (map g ys) = map (\<lambda>(x, y). (f x, g y)) (List.product xs ys)"
  by (induction xs) simp_all

lemma vars_of_wide:
  assumes "wide_enough L"
  shows "int (length L) - 1 = int (length L - 1)"
    and "py_range 0 (int (length L - 1)) = map int [0..<length L - 1]"
    and "py_range (int (length L - 1)) (2 * int (length L - 1)) =
           map (\<lambda>i. int (length L - 1) + int i) [0..<length L - 1]"
    and "py_range 1 (int (length L - 1)) = map int [1..<length L - 1]"
proof -
  have "2 \<le> length L" using assms by (simp add: wide_enough_def)
  then show "int (length L) - 1 = int (length L - 1)" by linarith
  show "py_range 0 (int (length L - 1)) = map int [0..<length L - 1]"
    using py_range_nat [of 0 "length L - 1"] by simp
  have "2 * int (length L - 1) = int (length L - 1) + int (length L - 1)" by simp
  then show "py_range (int (length L - 1)) (2 * int (length L - 1)) =
           map (\<lambda>i. int (length L - 1) + int i) [0..<length L - 1]"
    by (simp only: py_range_conv)
  show "py_range 1 (int (length L - 1)) = map int [1..<length L - 1]"
    using py_range_nat [of 1 "length L - 1"] by simp
qed

lemma x_diag_items_wide:
  assumes "wide_enough L" and m: "m = length L - 1"
  shows "x_diag_items L (map int [0..<m]) (int m) = Inr (x_diag L m)"
proof -
  have r: "py_range 1 (int m) = map int [1..<m]"
    unfolding m by (rule vars_of_wide(4) [OF assms(1)])
  have "collect (\<lambda>x. and_then (getitem (map int [0..<m]) x) (\<lambda>k.
                   and_then (x_shift L x) (\<lambda>s. Inr ((k, k), ENCODING_BIAS + s))))
          (map int [1..<m]) =
        Inr (map (\<lambda>i. ((int i, int i), ENCODING_BIAS + dx L i)) [1..<m])"
  proof (rule collect_map)
    fix i assume "i \<in> set [1..<m]"
    then have i: "i < m" by simp
    then have s: "x_shift L (int i) = Inr (dx L i)"
      using assms by (intro x_shift_in_range) simp_all
    show "and_then (getitem (map int [0..<m]) (int i)) (\<lambda>k.
            and_then (x_shift L (int i)) (\<lambda>s. Inr ((k, k), ENCODING_BIAS + s))) =
          Inr ((int i, int i), ENCODING_BIAS + dx L i)"
      by (simp only: getitem_map_upt [OF i] s and_then_Inr)
  qed
  then show ?thesis by (simp only: x_diag_items_def r x_diag_def)
qed

lemma y_diag_items_wide:
  assumes "wide_enough L" and m: "m = length L - 1"
  shows "y_diag_items L (map (\<lambda>i. int m + int i) [0..<m]) (int m) = Inr (y_diag L m)"
proof -
  have r: "py_range 1 (int m) = map int [1..<m]"
    unfolding m by (rule vars_of_wide(4) [OF assms(1)])
  have "collect (\<lambda>y. and_then (getitem (map (\<lambda>i. int m + int i) [0..<m]) y) (\<lambda>k.
                   and_then (y_shift L y) (\<lambda>s. Inr ((k, k), ENCODING_BIAS + s))))
          (map int [1..<m]) =
        Inr (map (\<lambda>j. ((int m + int j, int m + int j), ENCODING_BIAS + dy L j)) [1..<m])"
  proof (rule collect_map)
    fix j assume "j \<in> set [1..<m]"
    then have j: "j < m" by simp
    then have s: "y_shift L (int j) = Inr (dy L j)"
      using assms by (intro y_shift_in_range) simp_all
    show "and_then (getitem (map (\<lambda>i. int m + int i) [0..<m]) (int j)) (\<lambda>k.
            and_then (y_shift L (int j)) (\<lambda>s. Inr ((k, k), ENCODING_BIAS + s))) =
          Inr ((int m + int j, int m + int j), ENCODING_BIAS + dy L j)"
      by (simp only: getitem_map_upt [OF j] s and_then_Inr)
  qed
  then show ?thesis by (simp only: y_diag_items_def r y_diag_def)
qed

lemma cross_items_wide:
  assumes "wide_enough L" and m: "m = length L - 1"
  shows "cross_items L (map int [0..<m]) (map (\<lambda>i. int m + int i) [0..<m]) (int m) =
           Inr (cross L m)"
proof -
  have r: "py_range 0 (int m) = map int [0..<m]"
    unfolding m by (rule vars_of_wide(2) [OF assms(1)])
  have "collect (\<lambda>(x, y). and_then (getitem (map int [0..<m]) x) (\<lambda>k.
                        and_then (getitem (map (\<lambda>i. int m + int i) [0..<m]) y) (\<lambda>l.
                        and_then (angle_shift L x y) (\<lambda>s. Inr ((k, l), s)))))
          (map (\<lambda>(i, j). (int i, int j)) (List.product [0..<m] [0..<m])) =
        Inr (map (\<lambda>(i, j). ((int i, int m + int j), ang L i j)) (List.product [0..<m] [0..<m]))"
  proof (rule collect_map)
    fix p assume "p \<in> set (List.product [0..<m] [0..<m])"
    then obtain i j where p: "p = (i, j)" and i: "i < m" and j: "j < m" by auto
    have s: "angle_shift L (int i) (int j) = Inr (ang L i j)"
      using assms i j by (intro angle_shift_in_range) simp_all
    show "(case (case p of (i, j) \<Rightarrow> (int i, int j)) of (x, y) \<Rightarrow>
            and_then (getitem (map int [0..<m]) x) (\<lambda>k.
            and_then (getitem (map (\<lambda>i. int m + int i) [0..<m]) y) (\<lambda>l.
            and_then (angle_shift L x y) (\<lambda>s. Inr ((k, l), s))))) =
          Inr (case p of (i, j) \<Rightarrow> ((int i, int m + int j), ang L i j))"
      by (simp only: p prod.case getitem_map_upt [OF i] getitem_map_upt [OF j] s and_then_Inr)
  qed
  then show ?thesis by (simp only: cross_items_def r cross_def product_map)
qed

lemma adjacent_items_wide:
  assumes "wide_enough L" and m: "m = length L - 1"
  shows "adjacent_items (map (\<lambda>i. int a + int i) [0..<m]) (int m) = Inr (adjacent a m)"
proof -
  have r: "py_range 1 (int m) = map int [1..<m]"
    unfolding m by (rule vars_of_wide(4) [OF assms(1)])
  have "collect (\<lambda>x. and_then (getitem (map (\<lambda>i. int a + int i) [0..<m]) x) (\<lambda>k.
                   and_then (getitem (map (\<lambda>i. int a + int i) [0..<m]) (x - 1))
                     (\<lambda>l. Inr ((k, l), - ENCODING_BIAS))))
          (map int [1..<m]) =
        Inr (map (\<lambda>i. ((int a + int i, int a + int (i - 1)), - ENCODING_BIAS)) [1..<m])"
  proof (rule collect_map)
    fix i assume "i \<in> set [1..<m]"
    then have i: "i < m" and i1: "i - 1 < m" and e: "int i - 1 = int (i - 1)" by auto
    show "and_then (getitem (map (\<lambda>i. int a + int i) [0..<m]) (int i)) (\<lambda>k.
            and_then (getitem (map (\<lambda>i. int a + int i) [0..<m]) (int i - 1))
              (\<lambda>l. Inr ((k, l), - ENCODING_BIAS))) =
          Inr ((int a + int i, int a + int (i - 1)), - ENCODING_BIAS)"
      by (simp only: e getitem_map_upt [OF i] getitem_map_upt [OF i1] and_then_Inr)
  qed
  then show ?thesis by (simp only: adjacent_items_def r adjacent_def)
qed

lemma get_qubo_wide:
  assumes "wide_enough L"
  shows "get_qubo L = Inr (dict_of (qubo_items L))"
proof -
  define m where "m = length L - 1"
  have m1: "0 < m" using assms by (simp add: m_def wide_enough_def)
  have nv: "int (length L) - 1 = int m"
    unfolding m_def by (rule vars_of_wide(1) [OF assms])
  have xv: "py_range 0 (int m) = map int [0..<m]"
    unfolding m_def by (rule vars_of_wide(2) [OF assms])
  have xv': "map int [0..<m] = map (\<lambda>i. int 0 + int i) [0..<m]" by simp
  have yv: "py_range (int m) (2 * int m) = map (\<lambda>i. int m + int i) [0..<m]"
    unfolding m_def by (rule vars_of_wide(3) [OF assms])
  have x0: "x_shift L 0 = Inr (dx L 0)"
    using x_shift_in_range [OF assms, of 0] m1 by (simp add: m_def)
  have y0: "y_shift L 0 = Inr (dy L 0)"
    using y_shift_in_range [OF assms, of 0] m1 by (simp add: m_def)
  have kx: "getitem (map int [0..<m]) 0 = Inr 0"
    using getitem_map_upt [OF m1, of int] by simp
  have ky: "getitem (map (\<lambda>i. int m + int i) [0..<m]) 0 = Inr (int m)"
    using getitem_map_upt [OF m1, of "\<lambda>i. int m + int i"] by simp
  have xa: "adjacent_items (map int [0..<m]) (int m) = Inr (adjacent 0 m)"
    unfolding xv' by (rule adjacent_items_wide [OF assms m_def])
  have "get_qubo L =
      Inr (((((dict_of (x_diag L m))((0, 0) \<mapsto> dx L 0) ++ dict_of (y_diag L m))
              ((int m, int m) \<mapsto> dy L 0)
             ++ dict_of (cross L m)) ++ dict_of (adjacent 0 m)) ++ dict_of (adjacent m m))"
    by (simp only: get_qubo_def Let_def nv xv yv x0 y0 kx ky xa
        x_diag_items_wide [OF assms m_def] y_diag_items_wide [OF assms m_def]
        cross_items_wide [OF assms m_def] adjacent_items_wide [OF assms m_def]
        and_then_Inr)
  also have "\<dots> = Inr (dict_of (qubo_items L))"
    by (simp only: qubo_items_def Let_def m_def [symmetric] dict_store dict_of_append [symmetric]
        append_assoc append_Cons append_Nil)
  finally show ?thesis .
qed

lemma energy_map_of:
  assumes "distinct (map fst kvs)"
  shows "energy (map_of kvs) s = sum_list (map (contribution s) kvs)"
  using assms
proof (induction kvs)
  case Nil
  then show ?case by (simp add: energy_def)
next
  case (Cons p kvs)
  obtain k c where p: "p = (k, c)" by (cases p)
  let ?P = "\<lambda>k. is_set s (fst k) \<and> is_set s (snd k)"
  let ?D = "{k' \<in> dom (map_of kvs). ?P k'}"
  have k: "k \<notin> dom (map_of kvs)" and d: "distinct (map fst kvs)"
    using Cons.prems by (auto simp add: p dom_map_of_conv_image_fst)
  have fin: "finite ?D" by (simp add: finite_dom_map_of)
  have kD: "k \<notin> ?D" using k by simp
  have same: "(\<Sum>k' \<in> ?D. the (map_of (p # kvs) k')) = (\<Sum>k' \<in> ?D. the (map_of kvs k'))"
    by (rule sum.cong) (use k in \<open>auto simp add: p\<close>)
  have ih: "(\<Sum>k' \<in> ?D. the (map_of kvs k')) = sum_list (map (contribution s) kvs)"
    using Cons.IH [OF d] by (simp add: energy_def)
  have c: "contribution s p = (if ?P k then c else 0)"
    by (cases k) (simp add: p contribution_def)
  have v: "the (map_of (p # kvs) k) = c" by (simp add: p)
  have l: "sum_list (map (contribution s) (p # kvs)) =
           contribution s p + sum_list (map (contribution s) kvs)" by simp
  show ?case
  proof (cases "?P k")
    case True
    then have "{k' \<in> dom (map_of (p # kvs)). ?P k'} = insert k ?D"
      by (auto simp add: p)
    then have "energy (map_of (p # kvs)) s =
        the (map_of (p # kvs) k) + (\<Sum>k' \<in> ?D. the (map_of (p # kvs) k'))"
      unfolding energy_def by (simp only: sum.insert [OF fin kD])
    also have "\<dots> = c + sum_list (map (contribution s) kvs)"
      unfolding v same ih ..
    also have "\<dots> = sum_list (map (contribution s) (p # kvs))"
      unfolding l c using True by simp
    finally show ?thesis .
  next
    case False
    then have "{k' \<in> dom (map_of (p # kvs)). ?P k'} = ?D"
      by (auto simp add: p)
    then have "energy (map_of (p # kvs)) s = (\<Sum>k' \<in> ?D. the (map_of (p # kvs) k'))"
      unfolding energy_def by (simp only:)
    also have "\<dots> = sum_list (map (contribution s) kvs)"
      unfolding same ih ..
    also have "\<dots> = sum_list (map (contribution s) (p # kvs))"
      unfolding l c using False by auto
    finally show ?thesis .
  qed
qed

lemma energy_dict_of:
  assumes "distinct (map fst kvs)"
  shows "energy (dict_of kvs) s = sum_list (map (contribution s) kvs)"
proof -
  have "distinct (map fst (rev kvs))" using assms by (simp add: rev_map [symmetric])
  then have "energy (map_of (rev kvs)) s = sum_list (map (contribution s) (rev kvs))"
    by (rule energy_map_of)
  then show ?thesis
    by (simp add: dict_of_map_of rev_map [symmetric])
qed

lemma dom_dict_of: "dom (dict_of kvs) = set (map fst kvs)"
  by (simp add: dict_of_map_of dom_map_of_conv_image_fst)

lemma keys_x_diag: "map fst (x_diag L m) = map (\<lambda>i. (int i, int i)) [1..<m]"
  by (simp add: x_diag_def comp_def)

lemma keys_y_diag: "map fst (y_diag L m) = map (\<lambda>j. (int m + int j, int m + int j)) [1..<m]"
  by (simp add: y_diag_def comp_def)

lemma keys_cross:
  "map fst (cross L m) = map (\<lambda>(i, j). (int i, int m + int j)) (List.product [0..<m] [0..<m])"
  by (simp add: cross_def comp_def case_prod_unfold)

lemma keys_adjacent:
  "map fst (adjacent a m) = map (\<lambda>i. (int a + int i, int a + int (i - 1))) [1..<m]"
  by (simp add: adjacent_def comp_def)

lemma distinct_cross: "distinct (map fst (cross L m))"
  unfolding keys_cross
  by (rule iffD2 [OF distinct_map]) (auto simp add: distinct_product inj_on_def)

lemma distinct_pieces:
  "distinct (map fst (x_diag L m))" "distinct (map fst (y_diag L m))"
  "distinct (map fst (adjacent a m))"
  unfolding keys_x_diag keys_y_diag keys_adjacent
  by (auto simp add: distinct_map inj_on_def)

lemma set_keys:
  "set (map fst (x_diag L m)) = {(int i, int i) | i. 1 \<le> i \<and> i < m}"
  "set (map fst (y_diag L m)) = {(int m + int j, int m + int j) | j. 1 \<le> j \<and> j < m}"
  "set (map fst (cross L m)) = {(int i, int m + int j) | i j. i < m \<and> j < m}"
  "set (map fst (adjacent a m)) = {(int a + int i, int a + int (i - 1)) | i. 1 \<le> i \<and> i < m}"
  unfolding keys_x_diag keys_y_diag keys_adjacent keys_cross
  by auto

lemma distinct_qubo_items:
  assumes "2 \<le> length L"
  shows "distinct (map fst (qubo_items L))"
proof -
  define m where "m = length L - 1"
  have m: "0 < m" using assms by (simp add: m_def)
  have "distinct (map fst (x_diag L m) @ [(0, 0)] @ map fst (y_diag L m) @ [(int m, int m)]
          @ map fst (cross L m) @ map fst (adjacent 0 m) @ map fst (adjacent m m))"
    unfolding distinct_append
    using m
    by (simp add: distinct_cross distinct_pieces set_keys del: map_map set_map) auto
  then show ?thesis
    unfolding qubo_items_def Let_def m_def [symmetric]
    by (simp only: map_append list.map fst_conv)
qed

lemma axis_sum:
  fixes B :: int
  shows "sum_list (map (\<lambda>i. if P i then B + f i else 0) xs)
       + sum_list (map (\<lambda>i. if P i \<and> Q i then - B else 0) xs)
       = sum_list (map (\<lambda>i. if P i then f i else 0) xs)
       + B * int (length (filter (\<lambda>i. P i \<and> \<not> Q i) xs))"
  by (induction xs) (auto simp add: algebra_simps)

lemma sum_x_diag:
  "sum_list (map (contribution s) (x_diag L m)) =
     sum_list (map (\<lambda>i. if is_set s (int i) then ENCODING_BIAS + dx L i else 0) [1..<m])"
  by (simp add: x_diag_def contribution_def comp_def)

lemma sum_y_diag:
  "sum_list (map (contribution s) (y_diag L m)) =
     sum_list (map (\<lambda>j. if is_set s (int m + int j) then ENCODING_BIAS + dy L j else 0) [1..<m])"
  by (simp add: y_diag_def contribution_def comp_def)

lemma sum_cross:
  "sum_list (map (contribution s) (cross L m)) =
     sum_list (map (\<lambda>(i, j). if is_set s (int i) \<and> is_set s (int m + int j)
                                    then ang L i j else 0)
                       (List.product [0..<m] [0..<m]))"
  by (simp add: cross_def contribution_def comp_def case_prod_unfold cong: if_cong)

lemma sum_adjacent:
  "sum_list (map (contribution s) (adjacent a m)) =
     sum_list (map (\<lambda>i. if is_set s (int a + int i) \<and> is_set s (int a + int (i - 1))
                          then - ENCODING_BIAS else 0) [1..<m])"
  by (simp add: adjacent_def contribution_def comp_def)

lemma axis_energy:
  assumes "0 < m"
  shows "sum_list (map (\<lambda>i. if is_set s (int a + int i) then ENCODING_BIAS + f i else 0) [1..<m])
       + (if is_set s (int a) then f 0 else 0)
       + sum_list (map (\<lambda>i. if is_set s (int a + int i) \<and> is_set s (int a + int (i - 1))
                          then - ENCODING_BIAS else 0) [1..<m])
       = sum_list (map (\<lambda>i. if is_set s (int a + int i) then f i else 0) [0..<m])
       + ENCODING_BIAS * int (violations a m s)"
proof -
  have u: "[0..<m] = 0 # [1..<m]" using assms by (simp add: upt_conv_Cons)
  show ?thesis
    using axis_sum [where P = "\<lambda>i. is_set s (int a + int i)" and B = ENCODING_BIAS and f = f
        and Q = "\<lambda>i. is_set s (int a + int (i - 1))" and xs = "[1..<m]"]
    by (simp add: u violations_def)
qed

lemma energy_items:
  assumes "2 \<le> length L"
  shows "energy (dict_of (qubo_items L)) s =
           telescoped L s
           + ENCODING_BIAS * (int (violations 0 (length L - 1) s)
                              + int (violations (length L - 1) (length L - 1) s))"
proof -
  define m where "m = length L - 1"
  have m: "0 < m" using assms by (simp add: m_def)
  have x: "sum_list (map (contribution s) (x_diag L m)) + contribution s ((0, 0), dx L 0)
           + sum_list (map (contribution s) (adjacent 0 m))
         = sum_list (map (\<lambda>i. if is_set s (int i) then dx L i else 0) [0..<m])
           + ENCODING_BIAS * int (violations 0 m s)"
    using axis_energy [OF m, of s 0 "dx L"]
    by (simp add: sum_x_diag sum_adjacent contribution_def)
  have y: "sum_list (map (contribution s) (y_diag L m)) + contribution s ((int m, int m), dy L 0)
           + sum_list (map (contribution s) (adjacent m m))
         = sum_list (map (\<lambda>j. if is_set s (int m + int j) then dy L j else 0) [0..<m])
           + ENCODING_BIAS * int (violations m m s)"
    using axis_energy [OF m, of s m "dy L"]
    by (simp add: sum_y_diag sum_adjacent contribution_def)
  have "energy (dict_of (qubo_items L)) s = sum_list (map (contribution s) (qubo_items L))"
    by (rule energy_dict_of) (rule distinct_qubo_items [OF assms])
  also have "\<dots> =
      (sum_list (map (contribution s) (x_diag L m)) + contribution s ((0, 0), dx L 0)
           + sum_list (map (contribution s) (adjacent 0 m)))
    + (sum_list (map (contribution s) (y_diag L m)) + contribution s ((int m, int m), dy L 0)
           + sum_list (map (contribution s) (adjacent m m)))
    + sum_list (map (contribution s) (cross L m))"
    unfolding qubo_items_def Let_def m_def [symmetric] by simp
  also have "\<dots> = telescoped L s
           + ENCODING_BIAS * (int (violations 0 m s) + int (violations m m s))"
    unfolding x y sum_cross telescoped_def Let_def m_def [symmetric]
    by (simp add: algebra_simps)
  finally show ?thesis unfolding m_def .
qed

lemma length_unary: "c \<le> m \<Longrightarrow> length (unary m c) = m"
  by (simp add: unary_def)

lemma nth_unary: "c \<le> m \<Longrightarrow> i < m \<Longrightarrow> unary m c ! i = (if i < c then 1 else 0)"
  by (auto simp add: unary_def nth_append)

lemma is_set_encode_x:
  assumes "x \<le> m" "y \<le> m" "i < m"
  shows "is_set (encode m x y) (int i) \<longleftrightarrow> i < x"
proof -
  have "i < length (encode m x y)"
    using assms by (simp add: encode_def length_unary)
  then have "getitem (encode m x y) (int i) = Inr (encode m x y ! i)"
    by (rule getitem_nat)
  moreover have "encode m x y ! i = (if i < x then 1 else 0)"
    using assms by (simp add: encode_def nth_append length_unary nth_unary)
  ultimately show ?thesis by (simp add: is_set_def)
qed

lemma is_set_encode_y:
  assumes "x \<le> m" "y \<le> m" "j < m"
  shows "is_set (encode m x y) (int m + int j) \<longleftrightarrow> j < y"
proof -
  have "m + j < length (encode m x y)"
    using assms by (simp add: encode_def length_unary)
  then have "getitem (encode m x y) (int (m + j)) = Inr (encode m x y ! (m + j))"
    by (rule getitem_nat)
  moreover have "encode m x y ! (m + j) = (if j < y then 1 else 0)"
    using assms by (simp add: encode_def nth_append length_unary nth_unary)
  ultimately show ?thesis by (simp add: is_set_def)
qed

lemma prefix_sum:
  fixes f :: "nat \<Rightarrow> int"
  shows "sum_list (map (\<lambda>i. if i < x then f i else 0) [0..<m]) = sum f {..<min x m}"
proof (induction m)
  case 0
  then show ?case by simp
next
  case (Suc m)
  show ?case
  proof (cases "m < x")
    case True
    then have "min x m = m" "min x (Suc m) = Suc m" by simp_all
    with Suc True show ?thesis by simp
  next
    case False
    then have "min x m = x" "min x (Suc m) = x" by simp_all
    with Suc False show ?thesis by simp
  qed
qed

lemma sum_list_product:
  fixes f :: "'a \<times> 'b \<Rightarrow> int"
  shows "sum_list (map f (List.product xs ys)) =
         sum_list (map (\<lambda>x. sum_list (map (\<lambda>y. f (x, y)) ys)) xs)"
  by (induction xs) (simp_all add: comp_def)

lemma telescope:
  fixes g :: "nat \<Rightarrow> int"
  shows "(\<Sum>i<n. g (i + 1) - g i) = g n - g 0"
  by (induction n) simp_all

lemma violations_encode:
  assumes "x \<le> m" "y \<le> m"
  shows "violations 0 m (encode m x y) = 0" "violations m m (encode m x y) = 0"
proof -
  have "\<not> (is_set (encode m x y) (int 0 + int i) \<and> \<not> is_set (encode m x y) (int 0 + int (i - 1)))"
    if "i \<in> set [1..<m]" for i
  proof -
    have "i < m" "i - 1 < m" using that by auto
    then show ?thesis
      using is_set_encode_x [OF assms, of i] is_set_encode_x [OF assms, of "i - 1"] by auto
  qed
  then show "violations 0 m (encode m x y) = 0"
    unfolding violations_def by (simp only: length_0_conv filter_empty_conv) blast
  have "\<not> (is_set (encode m x y) (int m + int i) \<and> \<not> is_set (encode m x y) (int m + int (i - 1)))"
    if "i \<in> set [1..<m]" for i
  proof -
    have "i < m" "i - 1 < m" using that by auto
    then show ?thesis
      using is_set_encode_y [OF assms, of i] is_set_encode_y [OF assms, of "i - 1"] by auto
  qed
  then show "violations m m (encode m x y) = 0"
    unfolding violations_def by (simp only: length_0_conv filter_empty_conv) blast
qed

lemma telescoped_encode:
  assumes m: "m = length L - 1" and "x \<le> m" "y \<le> m"
  shows "telescoped L (encode m x y) = alt L x y - alt L 0 0"
proof -
  let ?s = "encode m x y"
  have sx: "sum_list (map (\<lambda>i. if is_set ?s (int i) then dx L i else 0) [0..<m]) =
            alt L x 0 - alt L 0 0"
  proof -
    have "map (\<lambda>i. if is_set ?s (int i) then dx L i else 0) [0..<m] =
          map (\<lambda>i. if i < x then dx L i else 0) [0..<m]"
      by (rule map_cong) (use is_set_encode_x [OF assms(2,3)] in auto)
    then show ?thesis
      using assms(2) telescope [of "\<lambda>i. alt L i 0" x]
      by (simp only: prefix_sum) (simp add: min_def dx_def)
  qed
  have sy: "sum_list (map (\<lambda>j. if is_set ?s (int m + int j) then dy L j else 0) [0..<m]) =
            alt L 0 y - alt L 0 0"
  proof -
    have "map (\<lambda>j. if is_set ?s (int m + int j) then dy L j else 0) [0..<m] =
          map (\<lambda>j. if j < y then dy L j else 0) [0..<m]"
      by (rule map_cong) (use is_set_encode_y [OF assms(2,3)] in auto)
    then show ?thesis
      using assms(3) telescope [of "\<lambda>j. alt L 0 j" y]
      by (simp only: prefix_sum) (simp add: min_def dy_def)
  qed
  have inner: "sum_list (map (\<lambda>j. if is_set ?s (int i) \<and> is_set ?s (int m + int j)
                                     then ang L i j else 0) [0..<m]) =
               (if i < x then (alt L (i + 1) y - alt L i y) - (alt L (i + 1) 0 - alt L i 0) else 0)"
    if "i < m" for i
  proof -
    have "map (\<lambda>j. if is_set ?s (int i) \<and> is_set ?s (int m + int j) then ang L i j else 0) [0..<m] =
          map (\<lambda>j. if j < y then (if i < x then ang L i j else 0) else 0) [0..<m]"
      by (rule map_cong)
         (use is_set_encode_y [OF assms(2,3)] is_set_encode_x [OF assms(2,3) that] in auto)
    then show ?thesis
      using assms(3) telescope [of "\<lambda>j. alt L (i + 1) j - alt L i j" y]
      by (simp only: prefix_sum) (simp add: min_def ang_def algebra_simps)
  qed
  have sc: "sum_list (map (\<lambda>(i, j). if is_set ?s (int i) \<and> is_set ?s (int m + int j)
                                    then ang L i j else 0)
                       (List.product [0..<m] [0..<m])) =
            (alt L x y - alt L 0 y) - (alt L x 0 - alt L 0 0)"
  proof -
    have "map (\<lambda>i. sum_list (map (\<lambda>j. if is_set ?s (int i) \<and> is_set ?s (int m + int j)
                                     then ang L i j else 0) [0..<m])) [0..<m] =
          map (\<lambda>i. if i < x then (alt L (i + 1) y - alt L i y) - (alt L (i + 1) 0 - alt L i 0)
                    else 0) [0..<m]"
      by (rule map_cong) (use inner in auto)
    then show ?thesis
      using assms(2) telescope [of "\<lambda>i. alt L i y - alt L i 0" x]
      by (simp only: sum_list_product prod.case prefix_sum) (simp add: min_def algebra_simps)
  qed
  show ?thesis
    unfolding telescoped_def Let_def m [symmetric] sx sy sc by simp
qed

lemma and_then_eq_Inr: "and_then m f = Inr b \<longleftrightarrow> (\<exists>a. m = Inr a \<and> f a = Inr b)"
  by (cases m) simp_all

lemma collect_Inr_all:
  "collect f xs = Inr ys \<Longrightarrow> x \<in> set xs \<Longrightarrow> \<exists>y. f x = Inr y"
  by (induction xs arbitrary: ys) (auto split: sum.splits)

lemma getitem_Inr_bound: "getitem xs (int k) = Inr v \<Longrightarrow> k < length xs"
  by (simp add: getitem_def split: if_splits)

lemma item2_Inr_bound:
  assumes "item2 L (int i) (int j) = Inr v"
  shows "i < length L \<and> j < length (L ! i)"
proof -
  from assms obtain row where r: "getitem L (int i) = Inr row" and c: "getitem row (int j) = Inr v"
    by (auto simp add: item2_def and_then_eq_Inr)
  have i: "i < length L" using r by (rule getitem_Inr_bound)
  then have "row = L ! i" using r by (simp add: getitem_nat)
  then show ?thesis using i getitem_Inr_bound [OF c] by simp
qed

lemma angle_shift_Inr_bound:
  assumes "angle_shift L (int i) (int j) = Inr v"
  shows "j + 1 < length (L ! i) \<and> j + 1 < length (L ! (i + 1))"
proof -
  have e: "int i + 1 = int (i + 1)" "int j + 1 = int (j + 1)" by simp_all
  from assms obtain a b where "item2 L (int (i + 1)) (int (j + 1)) = Inr a"
    and "item2 L (int i) (int (j + 1)) = Inr b"
    unfolding angle_shift_def e by (auto simp add: and_then_eq_Inr)
  then show ?thesis
    using item2_Inr_bound [of L "i + 1" "j + 1"] item2_Inr_bound [of L i "j + 1"] by simp
qed

lemma get_qubo_Inr_cross:
  assumes "get_qubo L = Inr Q"
  shows "\<exists>cr. cross_items L (py_range 0 (int (length L) - 1))
            (py_range (int (length L) - 1) (2 * (int (length L) - 1))) (int (length L) - 1) = Inr cr"
  using assms unfolding get_qubo_def Let_def and_then_eq_Inr by blast

lemma get_qubo_small:
  assumes "length L < 2"
  shows "get_qubo L = Inl IndexError"
proof -
  have r: "py_range 1 (int (length L) - 1) = []"
    using assms by (simp add: py_range_def)
  have g: "getitem L 1 = Inl IndexError"
    using assms by (simp add: getitem_def)
  have "x_shift L 0 = Inl IndexError"
    by (simp add: x_shift_def item2_def g)
  then show ?thesis
    by (simp add: get_qubo_def Let_def x_diag_items_def r)
qed

lemma get_qubo_Inr_wide:
  assumes "get_qubo L = Inr Q"
  shows "wide_enough L"
proof -
  have n2: "2 \<le> length L"
  proof (rule ccontr)
    assume "\<not> 2 \<le> length L"
    then have "get_qubo L = Inl IndexError" by (intro get_qubo_small) simp
    with assms show False by simp
  qed
  define m where "m = length L - 1"
  have m: "0 < m" "length L = m + 1" using n2 by (simp_all add: m_def)
  have nv: "int (length L) - 1 = int m" using m by simp
  have r: "py_range 0 (int m) = map int [0..<m]"
    using py_range_nat [of 0 m] by simp
  obtain cr where cr: "cross_items L (py_range 0 (int m)) (py_range (int m) (2 * int m)) (int m) = Inr cr"
    using get_qubo_Inr_cross [OF assms] unfolding nv by blast
  have rows: "length L \<le> length (L ! i) \<and> length L \<le> length (L ! (i + 1))" if "i < m" for i
  proof -
    have "i \<in> set [0..<m]" "m - 1 \<in> set [0..<m]" using that by simp_all
    then have "(int i, int (m - 1)) \<in> set (List.product (map int [0..<m]) (map int [0..<m]))"
      unfolding set_product set_map by blast
    from collect_Inr_all [OF cr [unfolded cross_items_def r] this]
    obtain v where "angle_shift L (int i) (int (m - 1)) = Inr v"
      by (auto simp add: and_then_eq_Inr)
    from angle_shift_Inr_bound [OF this] show ?thesis using m by simp
  qed
  have "length L \<le> length (L ! k)" if "k < length L" for k
  proof (cases "k < m")
    case True
    then show ?thesis using rows [of k] by simp
  next
    case False
    then have "k = (m - 1) + 1" using that m by simp
    then show ?thesis using rows [of "m - 1"] m by simp
  qed
  then show ?thesis
    using n2 by (simp add: wide_enough_def list_all_length)
qed

lemma get_qubo_iff: "(\<exists>Q. get_qubo L = Inr Q) \<longleftrightarrow> wide_enough L"
  using get_qubo_Inr_wide get_qubo_wide by blast

lemma card_filter_keys:
  assumes "distinct ks"
  shows "card {k \<in> set ks. P k} = length (filter P ks)"
proof -
  have "{k \<in> set ks. P k} = set (filter P ks)" by auto
  moreover have "card (set (filter P ks)) = length (filter P ks)"
    by (rule distinct_card) (simp add: assms)
  ultimately show ?thesis by (simp only:)
qed

lemma filter_pieces:
  "length (filter P (A @ [p] @ B @ [q] @ C @ D @ E)) =
     length (filter P A) + (if P p then 1 else 0) + length (filter P B) + (if P q then 1 else 0)
     + length (filter P C) + length (filter P D) + length (filter P E)"
  by simp

lemma count_all:
  assumes "\<And>x. x \<in> set xs \<Longrightarrow> P (f x)"
  shows "length (filter P (map f xs)) = length xs"
  using assms by (induction xs) simp_all

lemma count_none:
  assumes "\<And>x. x \<in> set xs \<Longrightarrow> \<not> P (f x)"
  shows "length (filter P (map f xs)) = 0"
  using assms by (induction xs) simp_all

lemma keys_qubo_items:
  "map fst (qubo_items L) =
     map fst (x_diag L (length L - 1)) @ [(0, 0)] @ map fst (y_diag L (length L - 1))
     @ [(int (length L - 1), int (length L - 1))]
     @ map fst (cross L (length L - 1)) @ map fst (adjacent 0 (length L - 1))
     @ map fst (adjacent (length L - 1) (length L - 1))"
  unfolding qubo_items_def Let_def by (simp only: map_append list.map fst_conv)

lemma count_diagonal:
  assumes "0 < m"
  shows "length (filter (\<lambda>k. fst k = snd k)
           (map fst (x_diag L m) @ [(0, 0)] @ map fst (y_diag L m) @ [(int m, int m)]
            @ map fst (cross L m) @ map fst (adjacent 0 m) @ map fst (adjacent m m))) = 2 * m"
proof -
  have a: "length (filter (\<lambda>k. fst k = snd k) (map fst (x_diag L m))) = m - 1"
    unfolding keys_x_diag by (subst count_all) simp_all
  have b: "length (filter (\<lambda>k. fst k = snd k) (map fst (y_diag L m))) = m - 1"
    unfolding keys_y_diag by (subst count_all) simp_all
  have c: "length (filter (\<lambda>k. fst k = snd k) (map fst (cross L m))) = 0"
    unfolding keys_cross by (rule count_none) auto
  have d: "length (filter (\<lambda>k. fst k = snd k) (map fst (adjacent a m))) = 0" for a
    unfolding keys_adjacent by (rule count_none) auto
  show ?thesis
    unfolding filter_pieces a b c d using assms by simp
qed

lemma count_cross:
  assumes "0 < m"
  shows "length (filter (\<lambda>k. fst k < int m \<and> int m \<le> snd k)
           (map fst (x_diag L m) @ [(0, 0)] @ map fst (y_diag L m) @ [(int m, int m)]
            @ map fst (cross L m) @ map fst (adjacent 0 m) @ map fst (adjacent m m))) = m * m"
proof -
  let ?P = "\<lambda>k. fst k < int m \<and> int m \<le> snd k"
  have a: "length (filter ?P (map fst (x_diag L m))) = 0"
    unfolding keys_x_diag by (rule count_none) auto
  have b: "length (filter ?P (map fst (y_diag L m))) = 0"
    unfolding keys_y_diag by (rule count_none) auto
  have c: "length (filter ?P (map fst (cross L m))) = m * m"
    unfolding keys_cross by (subst count_all) auto
  have d: "length (filter ?P (map fst (adjacent 0 m))) = 0"
    unfolding keys_adjacent by (rule count_none) auto
  have e: "length (filter ?P (map fst (adjacent m m))) = 0"
    unfolding keys_adjacent by (rule count_none) auto
  show ?thesis
    unfolding filter_pieces a b c d e using assms by simp
qed

lemma count_adjacent:
  assumes "0 < m"
  shows "length (filter (\<lambda>k. fst k = snd k + 1)
           (map fst (x_diag L m) @ [(0, 0)] @ map fst (y_diag L m) @ [(int m, int m)]
            @ map fst (cross L m) @ map fst (adjacent 0 m) @ map fst (adjacent m m))) = 2 * (m - 1)"
proof -
  let ?P = "\<lambda>k. fst k = snd k + 1"
  have a: "length (filter ?P (map fst (x_diag L m))) = 0"
    unfolding keys_x_diag by (rule count_none) auto
  have b: "length (filter ?P (map fst (y_diag L m))) = 0"
    unfolding keys_y_diag by (rule count_none) auto
  have c: "length (filter ?P (map fst (cross L m))) = 0"
    unfolding keys_cross by (rule count_none) auto
  have d: "length (filter ?P (map fst (adjacent a m))) = m - 1" for a
    unfolding keys_adjacent by (subst count_all) auto
  show ?thesis
    unfolding filter_pieces a b c d using assms by simp
qed

lemma length_qubo_items:
  assumes "2 \<le> length L"
  shows "length (qubo_items L) =
     2 * (length L - 1) + (length L - 1) * (length L - 1) + 2 * (length L - 1 - 1)"
  using assms by (simp add: qubo_items_def Let_def x_diag_def y_diag_def cross_def adjacent_def)

lemma dict_of_distinct:
  assumes "distinct (map fst kvs)" "(k, v) \<in> set kvs"
  shows "dict_of kvs k = Some v"
proof -
  have "distinct (map fst (rev kvs))" using assms(1) by (simp add: rev_map [symmetric])
  moreover have "(k, v) \<in> set (rev kvs)" using assms(2) by simp
  ultimately show ?thesis
    unfolding dict_of_map_of by (rule map_of_is_SomeI)
qed

section \<open>Claims about the QUBO\<close>

lemma LANDSCAPE_square: "square LANDSCAPE"
  by (simp add: square_def LANDSCAPE_def)

text \<open>
  Claim C1 (telescoping). On a square grid of side \<open>n \<ge> 2\<close>, \<^verbatim>\<open>_get_qubo\<close> returns a
  QUBO, and for all coordinates \<open>x, y < n\<close> the energy of the unary encoding of \<open>(x, y)\<close>
  (the sum of the coefficients whose two variables are both set) is exactly
  \<open>f(x, y) - f(0, 0)\<close>. The program's grid \<^const>\<open>LANDSCAPE\<close> is square.
\<close>

theorem telescoping_correct:
  assumes "square L" "x < length L" "y < length L"
  shows "\<exists>Q. get_qubo L = Inr Q
           \<and> energy Q (encode (length L - 1) x y) = L ! x ! y - L ! 0 ! 0"
proof -
  have w: "wide_enough L" using assms(1) by (rule square_wide_enough)
  then have n: "2 \<le> length L" by (simp add: wide_enough_def)
  have x: "x \<le> length L - 1" and y: "y \<le> length L - 1" using assms(2,3) by simp_all
  have "energy (dict_of (qubo_items L)) (encode (length L - 1) x y) = alt L x y - alt L 0 0"
    unfolding energy_items [OF n] violations_encode [OF x y] telescoped_encode [OF refl x y]
    by simp
  then show ?thesis
    using get_qubo_wide [OF w] by (simp add: alt_def)
qed

theorem telescoping_correct_witness:
  "\<exists>Q. get_qubo LANDSCAPE = Inr Q \<and> energy Q (encode 9 2 2) = - 4
       \<and> energy Q (encode 9 9 9) = 1 \<and> energy Q (encode 9 0 0) = 0"
proof -
  have l: "length LANDSCAPE = 10" by (simp add: LANDSCAPE_def)
  have "(2::nat) < length LANDSCAPE" "(9::nat) < length LANDSCAPE" "(0::nat) < length LANDSCAPE"
    by (simp_all add: l)
  then show ?thesis
    using telescoping_correct [OF LANDSCAPE_square, of 2 2]
      telescoping_correct [OF LANDSCAPE_square, of 9 9]
      telescoping_correct [OF LANDSCAPE_square, of 0 0]
    by (auto simp add: l) (simp_all add: LANDSCAPE_def)
qed

text \<open>
  Claim C7 says that a grid that is not square, or has side length below 2, makes the
  program fail with a configuration error before any QUBO is built. The code has no
  such check. On the 2 by 3 grid, which is not square, \<^verbatim>\<open>_get_qubo\<close> returns a QUBO.
  On the grid with the single row \<open>[7]\<close> the first comprehension completes (with no
  item) and the failure is the \<^verbatim>\<open>IndexError\<close> of \<^verbatim>\<open>LANDSCAPE[1]\<close> in \<^verbatim>\<open>_x_shift(0)\<close>.
\<close>

theorem no_configuration_check_counterexample:
  "\<not> square [[1, 2, 3], [4, 5, 6]]
   \<and> get_qubo [[1, 2, 3], [4, 5, 6]] \<noteq> Inl IndexError
   \<and> x_diag_items [[7]] (py_range 0 0) 0 = Inr []
   \<and> x_shift [[7]] 0 = Inl IndexError
   \<and> get_qubo [[7]] = Inl IndexError"
proof -
  have "wide_enough [[1, 2, 3], [4, 5, 6]]" by (simp add: wide_enough_def)
  then have "get_qubo [[1, 2, 3], [4, 5, 6]] \<noteq> Inl IndexError"
    using get_qubo_wide by fastforce
  moreover have "x_shift [[7]] 0 = Inl IndexError"
    by (simp add: x_shift_def item2_def getitem_def)
  moreover have "x_diag_items [[7]] (py_range 0 0) 0 = Inr []"
    by (simp add: x_diag_items_def py_range_def)
  moreover have "get_qubo [[7]] = Inl IndexError"
    by (rule get_qubo_small) simp
  ultimately show ?thesis by (simp add: square_def)
qed

text \<open>
  Claim C7 as amended: \<^verbatim>\<open>_get_qubo\<close> raises exactly when the grid has fewer than 2
  rows or has a row with fewer entries than the grid has rows, and what it raises is
  \<^verbatim>\<open>IndexError\<close>; on every other grid, square or not, it returns a QUBO.
\<close>

theorem get_qubo_raises_iff:
  "get_qubo L = Inl IndexError \<longleftrightarrow> length L < 2 \<or> (\<exists>row\<in>set L. length row < length L)"
proof -
  have "get_qubo L = Inl IndexError \<longleftrightarrow> \<not> (\<exists>Q. get_qubo L = Inr Q)"
    by (cases "get_qubo L") (simp_all add: py_error_only)
  also have "\<dots> \<longleftrightarrow> \<not> wide_enough L" by (simp only: get_qubo_iff)
  also have "\<dots> \<longleftrightarrow> length L < 2 \<or> (\<exists>row\<in>set L. length row < length L)"
    unfolding wide_enough_def list_all_iff by (meson not_le)
  finally show ?thesis .
qed

theorem get_qubo_raises_iff_witness:
  "get_qubo [] = Inl IndexError
   \<and> get_qubo [[1, 2], [3]] = Inl IndexError
   \<and> get_qubo [[4, 3, 2], [3, 2, 1]] \<noteq> Inl IndexError
   \<and> get_qubo LANDSCAPE \<noteq> Inl IndexError"
proof -
  have "get_qubo [] = Inl IndexError"
    using get_qubo_raises_iff [of "[]"] by simp
  moreover have "get_qubo [[1, 2], [3]] = Inl IndexError"
    using get_qubo_raises_iff [of "[[1, 2], [3]]"] by simp
  moreover have "get_qubo [[4, 3, 2], [3, 2, 1]] \<noteq> Inl IndexError"
    using get_qubo_raises_iff [of "[[4, 3, 2], [3, 2, 1]]"] by simp
  moreover have "get_qubo LANDSCAPE \<noteq> Inl IndexError"
    using get_qubo_raises_iff [of LANDSCAPE] by (simp add: LANDSCAPE_def)
  ultimately show ?thesis by simp
qed

text \<open>
  Claim C9 (no pass overwrites another). On a square grid every pass of \<^verbatim>\<open>_get_qubo\<close>
  succeeds, and the keys of all the items stored, taken in the order in which they are
  stored, are pairwise different: no key is written twice, within a pass or across
  passes. So every item stored is still in the QUBO returned, with the value it was
  stored with, and the QUBO has \<open>2 * (n - 1)\<close> diagonal entries, \<open>(n - 1)\<^sup>2\<close> cross
  entries (first index in the x block, second in the y block) and \<open>2 * (n - 2)\<close>
  adjacent-coupling entries (first index one above the second), and no others.
\<close>

theorem passes_never_overwrite:
  assumes "square L"
  shows "\<exists>xd x0 kx yd y0 ky cr xa ya Q.
        x_diag_items L (x_vars_of L) (int (length L) - 1) = Inr xd
      \<and> x_shift L 0 = Inr x0 \<and> getitem (x_vars_of L) 0 = Inr kx
      \<and> y_diag_items L (y_vars_of L) (int (length L) - 1) = Inr yd
      \<and> y_shift L 0 = Inr y0 \<and> getitem (y_vars_of L) 0 = Inr ky
      \<and> cross_items L (x_vars_of L) (y_vars_of L) (int (length L) - 1) = Inr cr
      \<and> adjacent_items (x_vars_of L) (int (length L) - 1) = Inr xa
      \<and> adjacent_items (y_vars_of L) (int (length L) - 1) = Inr ya
      \<and> distinct (map fst (xd @ [((kx, kx), x0)] @ yd @ [((ky, ky), y0)] @ cr @ xa @ ya))
      \<and> get_qubo L = Inr Q
      \<and> (\<forall>item \<in> set (xd @ [((kx, kx), x0)] @ yd @ [((ky, ky), y0)] @ cr @ xa @ ya).
            Q (fst item) = Some (snd item))
      \<and> dom Q = set (map fst (xd @ [((kx, kx), x0)] @ yd @ [((ky, ky), y0)] @ cr @ xa @ ya))
      \<and> card {k \<in> dom Q. fst k = snd k} = 2 * (length L - 1)
      \<and> card {k \<in> dom Q. fst k < int (length L) - 1 \<and> int (length L) - 1 \<le> snd k}
            = (length L - 1) * (length L - 1)
      \<and> card {k \<in> dom Q. fst k = snd k + 1} = 2 * (length L - 2)
      \<and> card (dom Q) = 2 * (length L - 1) + (length L - 1) * (length L - 1) + 2 * (length L - 2)"
proof -
  have w: "wide_enough L" using assms by (rule square_wide_enough)
  then have n: "2 \<le> length L" by (simp add: wide_enough_def)
  define m where "m = length L - 1"
  have m: "0 < m" using n by (simp add: m_def)
  have nv: "int (length L) - 1 = int m"
    unfolding m_def by (rule vars_of_wide(1) [OF w])
  have xv: "x_vars_of L = map int [0..<m]"
    unfolding x_vars_of_def nv unfolding m_def by (rule vars_of_wide(2) [OF w])
  have xv': "map int [0..<m] = map (\<lambda>i. int 0 + int i) [0..<m]" by simp
  have yv: "y_vars_of L = map (\<lambda>i. int m + int i) [0..<m]"
    unfolding y_vars_of_def nv unfolding m_def by (rule vars_of_wide(3) [OF w])
  let ?all = "x_diag L m @ [((0, 0), dx L 0)] @ y_diag L m @ [((int m, int m), dy L 0)]
                @ cross L m @ adjacent 0 m @ adjacent m m"
  have all: "qubo_items L = ?all"
    by (simp only: qubo_items_def Let_def m_def)
  have d: "distinct (map fst ?all)"
    using distinct_qubo_items [OF n] by (simp only: all)
  have keys: "map fst ?all = map fst (x_diag L m) @ [(0, 0)] @ map fst (y_diag L m)
       @ [(int m, int m)] @ map fst (cross L m) @ map fst (adjacent 0 m) @ map fst (adjacent m m)"
    by (simp only: map_append list.map fst_conv)
  have p1: "x_diag_items L (x_vars_of L) (int (length L) - 1) = Inr (x_diag L m)"
    unfolding xv nv by (rule x_diag_items_wide [OF w m_def])
  have p2: "x_shift L 0 = Inr (dx L 0)"
    using x_shift_in_range [OF w, of 0] n by simp
  have p3: "getitem (x_vars_of L) 0 = Inr 0"
    unfolding xv using getitem_map_upt [OF m, of int] by simp
  have p4: "y_diag_items L (y_vars_of L) (int (length L) - 1) = Inr (y_diag L m)"
    unfolding yv nv by (rule y_diag_items_wide [OF w m_def])
  have p5: "y_shift L 0 = Inr (dy L 0)"
    using y_shift_in_range [OF w, of 0] n by simp
  have p6: "getitem (y_vars_of L) 0 = Inr (int m)"
    unfolding yv using getitem_map_upt [OF m, of "\<lambda>i. int m + int i"] by simp
  have p7: "cross_items L (x_vars_of L) (y_vars_of L) (int (length L) - 1) = Inr (cross L m)"
    unfolding xv yv nv by (rule cross_items_wide [OF w m_def])
  have p8: "adjacent_items (x_vars_of L) (int (length L) - 1) = Inr (adjacent 0 m)"
    unfolding xv nv unfolding xv' by (rule adjacent_items_wide [OF w m_def])
  have p9: "adjacent_items (y_vars_of L) (int (length L) - 1) = Inr (adjacent m m)"
    unfolding yv nv by (rule adjacent_items_wide [OF w m_def])
  have q: "get_qubo L = Inr (dict_of ?all)"
    using get_qubo_wide [OF w] by (simp only: all)
  have kept: "\<forall>item \<in> set ?all. dict_of ?all (fst item) = Some (snd item)"
  proof
    fix item assume "item \<in> set ?all"
    then have "(fst item, snd item) \<in> set ?all" by simp
    with d show "dict_of ?all (fst item) = Some (snd item)" by (rule dict_of_distinct)
  qed
  have dm: "dom (dict_of ?all) = set (map fst ?all)" by (rule dom_dict_of)
  have c1: "card {k \<in> dom (dict_of ?all). fst k = snd k} = 2 * (length L - 1)"
  proof -
    have "card {k \<in> set (map fst ?all). fst k = snd k} =
          length (filter (\<lambda>k. fst k = snd k) (map fst ?all))"
      by (rule card_filter_keys [OF d])
    also have "\<dots> = 2 * m" by (simp only: keys count_diagonal [OF m])
    finally show ?thesis unfolding dm by (simp only: m_def)
  qed
  have c2: "card {k \<in> dom (dict_of ?all). fst k < int (length L) - 1 \<and> int (length L) - 1 \<le> snd k}
            = (length L - 1) * (length L - 1)"
  proof -
    have "card {k \<in> set (map fst ?all). fst k < int m \<and> int m \<le> snd k} =
          length (filter (\<lambda>k. fst k < int m \<and> int m \<le> snd k) (map fst ?all))"
      by (rule card_filter_keys [OF d])
    also have "\<dots> = m * m" by (simp only: keys count_cross [OF m])
    finally show ?thesis unfolding dm nv by (simp only: m_def)
  qed
  have c3: "card {k \<in> dom (dict_of ?all). fst k = snd k + 1} = 2 * (length L - 2)"
  proof -
    have "card {k \<in> set (map fst ?all). fst k = snd k + 1} =
          length (filter (\<lambda>k. fst k = snd k + 1) (map fst ?all))"
      by (rule card_filter_keys [OF d])
    also have "\<dots> = 2 * (m - 1)" by (simp only: keys count_adjacent [OF m])
    also have "\<dots> = 2 * (length L - 2)" by (simp add: m_def)
    finally show ?thesis unfolding dm .
  qed
  have c4: "card (dom (dict_of ?all)) =
        2 * (length L - 1) + (length L - 1) * (length L - 1) + 2 * (length L - 2)"
  proof -
    have "card (set (map fst ?all)) = length (map fst ?all)" by (rule distinct_card [OF d])
    also have "\<dots> = length (qubo_items L)" by (simp only: all length_map)
    also have "\<dots> = 2 * (length L - 1) + (length L - 1) * (length L - 1) + 2 * (length L - 2)"
      unfolding length_qubo_items [OF n] by simp
    finally show ?thesis unfolding dm .
  qed
  show ?thesis
    using p1 p2 p3 p4 p5 p6 p7 p8 p9 d q kept dm c1 c2 c3 c4 by blast
qed

theorem passes_never_overwrite_witness:
  "\<exists>Q. get_qubo LANDSCAPE = Inr Q
      \<and> card {k \<in> dom Q. fst k = snd k} = 18
      \<and> card {k \<in> dom Q. fst k < 9 \<and> 9 \<le> snd k} = 81
      \<and> card {k \<in> dom Q. fst k = snd k + 1} = 16
      \<and> card (dom Q) = 115"
  using passes_never_overwrite [OF LANDSCAPE_square]
  by (auto simp add: LANDSCAPE_length)

lemma telescoped_gap_sample: "telescoped LANDSCAPE gap_sample = - 3"
  by code_simp

lemma violations_gap_sample:
  "violations 0 9 gap_sample = 0" "violations 9 9 gap_sample = 1"
  by code_simp+

lemma energy_encode:
  assumes "wide_enough L" "x \<le> length L - 1" "y \<le> length L - 1"
  shows "energy (dict_of (qubo_items L)) (encode (length L - 1) x y) = alt L x y - alt L 0 0"
proof -
  have n: "2 \<le> length L" using assms(1) by (simp add: wide_enough_def)
  show ?thesis
    unfolding energy_items [OF n] violations_encode [OF assms(2,3)]
      telescoped_encode [OF refl assms(2,3)]
    by simp
qed

lemma violations_positive:
  assumes "a + m \<le> length s" "0 < v" "v < m" "s ! (a + v) = 1" "s ! (a + v - 1) = 0"
  shows "0 < violations a m s"
proof -
  have "getitem s (int (a + v)) = Inr (s ! (a + v))"
    by (rule getitem_nat) (use assms in simp)
  then have p: "is_set s (int a + int v)"
    using assms(4) by (simp add: is_set_def)
  have "getitem s (int (a + (v - 1))) = Inr (s ! (a + (v - 1)))"
    by (rule getitem_nat) (use assms in simp)
  moreover have "a + (v - 1) = a + v - 1" using assms(2) by simp
  ultimately have q: "\<not> is_set s (int a + int (v - 1))"
    using assms(5) by (simp add: is_set_def)
  have "v \<in> set (filter (\<lambda>i. is_set s (int a + int i) \<and> \<not> is_set s (int a + int (i - 1))) [1..<m])"
    using p q assms(2,3) by simp
  then show ?thesis
    unfolding violations_def by (simp only: length_greater_0_conv) (metis empty_iff list.set(1))
qed

lemma LANDSCAPE_qubo: "get_qubo LANDSCAPE = Inr (dict_of (qubo_items LANDSCAPE))"
  by (rule get_qubo_wide) (rule square_wide_enough [OF LANDSCAPE_square])

lemma energy_gap_sample: "energy (dict_of (qubo_items LANDSCAPE)) gap_sample = 2"
proof -
  have "2 \<le> length LANDSCAPE" by (simp add: LANDSCAPE_length)
  from energy_items [OF this, of gap_sample] show ?thesis
    by (simp add: LANDSCAPE_length telescoped_gap_sample violations_gap_sample ENCODING_BIAS_def)
qed

lemma energy_valid_column:
  "energy (dict_of (qubo_items LANDSCAPE)) (encode 9 0 5) = - 2"
  "energy (dict_of (qubo_items LANDSCAPE)) (encode 9 0 3) = - 2"
  "energy (dict_of (qubo_items LANDSCAPE)) (encode 9 0 2) = - 2"
  using energy_encode [OF square_wide_enough [OF LANDSCAPE_square], of 0 5]
    energy_encode [OF square_wide_enough [OF LANDSCAPE_square], of 0 3]
    energy_encode [OF square_wide_enough [OF LANDSCAPE_square], of 0 2]
  by (simp_all add: LANDSCAPE_length) (simp_all add: alt_def LANDSCAPE_def)

text \<open>
  Claim C2 says that a sample violating the monotone-prefix invariant has energy at
  least \<^const>\<open>ENCODING_BIAS\<close> above the valid encoding of the same intended
  coordinates. On the program's grid it fails: the sample with x bits all 0 and y bits
  110010000 is invalid on the y axis (bit 4 is set, bit 3 is not) and has energy 2,
  while the valid encodings of \<open>(0, 5)\<close> (its highest set bit, what the decoder's
  running coordinate reads), \<open>(0, 3)\<close> (its number of set bits) and \<open>(0, 2)\<close> (its
  prefix of ones) all have energy \<open>- 2\<close>: the margin is 4, below the bias 5.
\<close>

theorem bias_margin_counterexample:
  "gap_sample ! (9 + 4) = 1 \<and> gap_sample ! (9 + 4 - 1) = 0
   \<and> parse_coord gap_sample (py_range 9 18) = Inr None
   \<and> get_qubo LANDSCAPE \<noteq> Inl IndexError
   \<and> energy (projr (get_qubo LANDSCAPE)) gap_sample = 2
   \<and> energy (projr (get_qubo LANDSCAPE)) (encode 9 0 5) = - 2
   \<and> energy (projr (get_qubo LANDSCAPE)) (encode 9 0 3) = - 2
   \<and> energy (projr (get_qubo LANDSCAPE)) (encode 9 0 2) = - 2
   \<and> \<not> energy (projr (get_qubo LANDSCAPE)) (encode 9 0 5) + ENCODING_BIAS
         \<le> energy (projr (get_qubo LANDSCAPE)) gap_sample
   \<and> \<not> energy (projr (get_qubo LANDSCAPE)) (encode 9 0 3) + ENCODING_BIAS
         \<le> energy (projr (get_qubo LANDSCAPE)) gap_sample
   \<and> \<not> energy (projr (get_qubo LANDSCAPE)) (encode 9 0 2) + ENCODING_BIAS
         \<le> energy (projr (get_qubo LANDSCAPE)) gap_sample"
proof -
  have b: "gap_sample ! (9 + 4) = 1" "gap_sample ! (9 + 4 - 1) = 0"
    by (simp_all add: gap_sample_def nth_append)
  have "parse_coord gap_sample (py_range (int 9) (int 9 + int 9)) = Inr None"
    by (rule parse_coord_violation [where v = 4]) (simp_all add: gap_sample_def nth_append)
  then have p: "parse_coord gap_sample (py_range 9 18) = Inr None" by simp
  show ?thesis
    using b p
    by (simp add: LANDSCAPE_qubo energy_gap_sample energy_valid_column ENCODING_BIAS_def)
qed

text \<open>
  Claim C2 as amended: on a square grid the energy of any sample is its energy under
  the shift coefficients alone plus \<^const>\<open>ENCODING_BIAS\<close> times the number of
  positions that hold a 1 directly after a position of the same axis block that does
  not. So a sample over the \<open>2 * (n - 1)\<close> variables with a 1 directly after a 0 on some
  axis has at least \<^const>\<open>ENCODING_BIAS\<close> more energy than the shifts alone give
  it, as the module docstring says, and a valid encoding has exactly the energy the
  shifts give it.
\<close>

theorem bias_penalty:
  assumes "square L"
  shows "\<exists>Q. get_qubo L = Inr Q
     \<and> (\<forall>s. energy Q s =
            telescoped L s
            + ENCODING_BIAS * (int (violations 0 (length L - 1) s)
                               + int (violations (length L - 1) (length L - 1) s)))
     \<and> (\<forall>s a v. length s = 2 * (length L - 1) \<and> (a = 0 \<or> a = length L - 1)
            \<and> 0 < v \<and> v < length L - 1 \<and> s ! (a + v) = 1 \<and> s ! (a + v - 1) = 0
          \<longrightarrow> telescoped L s + ENCODING_BIAS \<le> energy Q s)
     \<and> (\<forall>x y. x < length L \<and> y < length L
          \<longrightarrow> energy Q (encode (length L - 1) x y) = telescoped L (encode (length L - 1) x y))"
proof -
  have w: "wide_enough L" using assms by (rule square_wide_enough)
  then have n: "2 \<le> length L" by (simp add: wide_enough_def)
  let ?Q = "dict_of (qubo_items L)"
  let ?m = "length L - 1"
  have e: "energy ?Q s = telescoped L s
            + ENCODING_BIAS * (int (violations 0 ?m s) + int (violations ?m ?m s))" for s
    by (rule energy_items [OF n])
  have pen: "telescoped L s + ENCODING_BIAS \<le> energy ?Q s"
    if "length s = 2 * ?m" "a = 0 \<or> a = ?m" "0 < v" "v < ?m" "s ! (a + v) = 1" "s ! (a + v - 1) = 0"
    for s a v
  proof -
    have "a + ?m \<le> length s" using that(1,2) by auto
    from violations_positive [OF this that(3,4,5,6)]
    have "1 \<le> int (violations 0 ?m s) + int (violations ?m ?m s)"
      using that(2) by auto
    then have "ENCODING_BIAS * 1 \<le>
        ENCODING_BIAS * (int (violations 0 ?m s) + int (violations ?m ?m s))"
      by (intro mult_left_mono) (simp_all add: ENCODING_BIAS_def)
    then show ?thesis unfolding e by simp
  qed
  have val: "energy ?Q (encode ?m x y) = telescoped L (encode ?m x y)"
    if "x < length L" "y < length L" for x y
  proof -
    have "x \<le> ?m" "y \<le> ?m" using that by simp_all
    then show ?thesis
      unfolding e by (simp add: violations_encode)
  qed
  show ?thesis
    using get_qubo_wide [OF w] e pen val by blast
qed

theorem bias_penalty_witness:
  "\<exists>Q. get_qubo LANDSCAPE = Inr Q
     \<and> energy Q gap_sample = - 3 + ENCODING_BIAS * (0 + 1)
     \<and> telescoped LANDSCAPE gap_sample + ENCODING_BIAS \<le> energy Q gap_sample
     \<and> energy Q (encode 9 0 5) = telescoped LANDSCAPE (encode 9 0 5)"
proof -
  have h: "length gap_sample = 2 * (length LANDSCAPE - 1)
       \<and> (9 = (0::nat) \<or> 9 = length LANDSCAPE - 1)
       \<and> 0 < (4::nat) \<and> 4 < length LANDSCAPE - 1
       \<and> gap_sample ! (9 + 4) = 1 \<and> gap_sample ! (9 + 4 - 1) = 0"
    by (simp add: LANDSCAPE_length gap_sample_def nth_append)
  have v: "(0::nat) < length LANDSCAPE \<and> 5 < length LANDSCAPE"
    by (simp add: LANDSCAPE_length)
  obtain Q where q: "get_qubo LANDSCAPE = Inr Q"
    and e: "\<And>s. energy Q s = telescoped LANDSCAPE s
            + ENCODING_BIAS * (int (violations 0 (length LANDSCAPE - 1) s)
                               + int (violations (length LANDSCAPE - 1) (length LANDSCAPE - 1) s))"
    and p: "\<And>s a v. length s = 2 * (length LANDSCAPE - 1) \<and> (a = 0 \<or> a = length LANDSCAPE - 1)
            \<and> 0 < v \<and> v < length LANDSCAPE - 1 \<and> s ! (a + v) = 1 \<and> s ! (a + v - 1) = 0
          \<Longrightarrow> telescoped LANDSCAPE s + ENCODING_BIAS \<le> energy Q s"
    and t: "\<And>x y. x < length LANDSCAPE \<and> y < length LANDSCAPE
          \<Longrightarrow> energy Q (encode (length LANDSCAPE - 1) x y) =
              telescoped LANDSCAPE (encode (length LANDSCAPE - 1) x y)"
    using bias_penalty [OF LANDSCAPE_square] by blast
  have "energy Q gap_sample = - 3 + ENCODING_BIAS * (0 + 1)"
    using e [of gap_sample]
    by (simp add: LANDSCAPE_length telescoped_gap_sample violations_gap_sample)
  moreover have "telescoped LANDSCAPE gap_sample + ENCODING_BIAS \<le> energy Q gap_sample"
    by (rule p [of gap_sample 9 4]) (rule h)
  moreover have "energy Q (encode 9 0 5) = telescoped LANDSCAPE (encode 9 0 5)"
    using t [of 0 5] v by (simp add: LANDSCAPE_length)
  ultimately show ?thesis using q by blast
qed

end
